theory Spec2Isabelle
  imports Complex_Main "HOL-Library.AList" "HOL-Library.Multiset"
begin

chapter \<open>The embedding\<close>

section \<open>Shard partitioner (\<^verbatim>\<open>DifficultyFilterPipeline.prepare_dataset\<close>, the DP split)\<close>

text \<open>
  \<^verbatim>\<open>
  if self.args.dp_size > 1:
      total = len(dataset)
      per_rank = total // self.args.dp_size
      start = self.args.dp_rank * per_rank
      end = start + per_rank if self.args.dp_rank != self.args.dp_size - 1 else total
      dataset = dataset.select(range(start, end))
  \<close>
  Python integers are unbounded and \<^verbatim>\<open>//\<close> is floor division, as \<open>div\<close> on \<open>int\<close>.
  With \<^verbatim>\<open>dp_size <= 1\<close> the dataset is left whole, the range \<open>[0, total)\<close>.
\<close>

definition dp_split :: "int \<Rightarrow> int \<Rightarrow> int \<Rightarrow> int \<times> int" where
  "dp_split tot dp_size dp_rank =
     (if dp_size > 1 then
        (let per_rank = tot div dp_size;
             start = dp_rank * per_rank;
             stop = (if dp_rank \<noteq> dp_size - 1 then start + per_rank else tot)
         in (start, stop))
      else (0, tot))"

text \<open>The indices \<^verbatim>\<open>range(start, end)\<close> selects.\<close>

definition shard_indices :: "int \<Rightarrow> int \<Rightarrow> int \<Rightarrow> int set" where
  "shard_indices tot dp_size dp_rank =
     (case dp_split tot dp_size dp_rank of (start, stop) \<Rightarrow> {start..<stop})"

section \<open>Strings: decimal numerals, \<^verbatim>\<open>str.split\<close>, \<^verbatim>\<open>int()\<close>\<close>

text \<open>
  File names and result keys are ASCII strings. \<open>str_nat\<close> and \<open>str_int\<close> are Python's
  \<^verbatim>\<open>str()\<close> on integers, \<open>format_05d\<close> is the format specification \<^verbatim>\<open>{idx:05d}\<close>
  (zero padding to width five, the sign counted in the width).
\<close>

definition digit_char :: "nat \<Rightarrow> char" where
  "digit_char d = ''0123456789'' ! d"

fun str_nat :: "nat \<Rightarrow> string" where
  "str_nat n = (if n < 10 then [digit_char n] else str_nat (n div 10) @ [digit_char (n mod 10)])"

declare str_nat.simps [simp del]

definition str_int :: "int \<Rightarrow> string" where
  "str_int i = (if i < 0 then CHR ''-'' # str_nat (nat (- i)) else str_nat (nat i))"

definition zero_pad :: "nat \<Rightarrow> string \<Rightarrow> string" where
  "zero_pad w s = replicate (w - length s) CHR ''0'' @ s"

definition format_05d :: "int \<Rightarrow> string" where
  "format_05d i = (if i < 0 then CHR ''-'' # zero_pad 4 (str_nat (nat (- i)))
                   else zero_pad 5 (str_nat (nat i)))"

text \<open>\<^verbatim>\<open>f"batch_{idx:05d}.json"\<close>, the artifact's name inside the rank's directory.\<close>

definition batch_file_name :: "int \<Rightarrow> string" where
  "batch_file_name idx = ''batch_'' @ format_05d idx @ ''.json''"

text \<open>\<^verbatim>\<open>s.split(sep)\<close> for a one-character separator: never an empty list.\<close>

fun split_on :: "char \<Rightarrow> string \<Rightarrow> string list" where
  "split_on sep [] = [[]]"
| "split_on sep (c # cs) =
     (if c = sep then [] # split_on sep cs
      else (case split_on sep cs of [] \<Rightarrow> [[c]] | w # ws \<Rightarrow> (c # w) # ws))"

text \<open>List indexing that raises \<^verbatim>\<open>IndexError\<close>: \<open>None\<close> out of range.\<close>

fun nth_opt :: "'a list \<Rightarrow> nat \<Rightarrow> 'a option" where
  "nth_opt [] n = None"
| "nth_opt (x # xs) 0 = Some x"
| "nth_opt (x # xs) (Suc n) = nth_opt xs n"

text \<open>
  \<^verbatim>\<open>int(s)\<close> in base ten on an ASCII string: surrounding whitespace is dropped, one sign
  is allowed, then at least one digit, with single underscores between digits.
  \<open>None\<close> is \<^verbatim>\<open>ValueError\<close>.
\<close>

definition is_space :: "char \<Rightarrow> bool" where
  "is_space c = (of_char c \<in> {9, 10, 11, 12, 13, 28, 29, 30, 31, 32 :: nat})"

definition is_digit :: "char \<Rightarrow> bool" where
  "is_digit c = (c \<in> set ''0123456789'')"

definition digit_val :: "char \<Rightarrow> nat" where
  "digit_val c = of_char c - 48"

definition strip :: "string \<Rightarrow> string" where
  "strip s = rev (dropWhile is_space (rev (dropWhile is_space s)))"

fun digits_ok :: "string \<Rightarrow> bool" where
  "digits_ok [] = False"
| "digits_ok [c] = is_digit c"
| "digits_ok (c # d # r) =
     (is_digit c \<and> (if d = CHR ''_'' then digits_ok r else digits_ok (d # r)))"

definition digits_value :: "string \<Rightarrow> nat" where
  "digits_value s = foldl (\<lambda>a c. 10 * a + digit_val c) 0 (filter (\<lambda>c. c \<noteq> CHR ''_'') s)"

definition py_int :: "string \<Rightarrow> int option" where
  "py_int s =
     (let t = strip s;
          (neg, body) = (case t of
                           [] \<Rightarrow> (False, [])
                         | c # r \<Rightarrow> if c = CHR ''-'' then (True, r)
                                    else if c = CHR ''+'' then (False, r)
                                    else (False, t))
      in if digits_ok body
         then Some (if neg then - int (digits_value body) else int (digits_value body))
         else None)"

section \<open>Checkpoint resolver (\<^verbatim>\<open>DifficultyFilterPipeline.load_checkpoint\<close>)\<close>

text \<open>
  The rank's output directory is the list of its entries in the order the listing returns
  them, each a base name with what loading it gives: \<^verbatim>\<open>json.load\<close> followed by
  \<^verbatim>\<open>.items()\<close> either raises (\<open>Unreadable\<close>: no such file, a directory, broken JSON, a JSON
  value that is not an object) or yields the object's items, a dictionary and so with
  distinct keys, in order (\<open>Loaded\<close>). Nothing is merged before both have succeeded, so
  an unreadable file contributes nothing. The stored samples are opaque here (\<open>'v\<close>).
\<close>

datatype 'v file_content = Unreadable | Loaded "(string \<times> 'v) list"

text \<open>What \<^verbatim>\<open>console.print\<close> is called with, here and in the batch runner.\<close>

datatype console_msg =
    Force_regeneration
  | Could_not_parse string
  | Found_existing nat
  | Loaded_batch int nat
  | Failed_to_load string
  | Resuming_from int nat
  | Checkpoint_exceeds int
  | Generating int
  | Saved_batch string

record 'v checkpoint =
  current_batch_idx :: int
  global_results :: "(string \<times> 'v) list"
  global_errors :: "(string \<times> 'v) list"

text \<open>\<^verbatim>\<open>glob.glob(os.path.join(rank_output_dir, "batch_*.json"))\<close>, by base name.\<close>

definition glob_match :: "string \<Rightarrow> bool" where
  "glob_match fname =
     (11 \<le> length fname \<and> take 6 fname = ''batch_''
      \<and> drop (length fname - 5) fname = ''.json'')"

definition glob_batch_files :: "(string \<times> 'c) list \<Rightarrow> (string \<times> 'c) list" where
  "glob_batch_files dir = filter (\<lambda>(fname, c). glob_match fname) dir"

text \<open>
  \<^verbatim>\<open>int(os.path.basename(batch_file).split("_")[1].split(".")[0])\<close>; \<open>None\<close> where the
  source catches \<^verbatim>\<open>ValueError\<close> or \<^verbatim>\<open>IndexError\<close>.
\<close>

definition parse_batch_num :: "string \<Rightarrow> int option" where
  "parse_batch_num fname =
     (case nth_opt (split_on CHR ''_'' fname) 1 of
        None \<Rightarrow> None
      | Some p \<Rightarrow> (case split_on CHR ''.'' p of [] \<Rightarrow> None | q # _ \<Rightarrow> py_int q))"

text \<open>
  The first loop: every file whose name yields a number is appended to
  \<^verbatim>\<open>batch_files_with_idx\<close>, every other one is reported and left out.
\<close>

fun scan_names ::
  "(string \<times> 'c) list \<Rightarrow> (int \<times> string \<times> 'c) list \<Rightarrow> console_msg list
     \<Rightarrow> (int \<times> string \<times> 'c) list \<times> console_msg list" where
  "scan_names [] acc out = (acc, out)"
| "scan_names ((fname, c) # fs) acc out =
     (case parse_batch_num fname of
        Some n \<Rightarrow> scan_names fs (acc @ [(n, fname, c)]) out
      | None \<Rightarrow> scan_names fs acc (out @ [Could_not_parse fname]))"

text \<open>\<^verbatim>\<open>f"{batch_idx}_{i}"\<close>\<close>

definition result_key :: "int \<Rightarrow> string \<Rightarrow> string" where
  "result_key batch_idx i = str_int batch_idx @ ''_'' @ i"

text \<open>
  \<^verbatim>\<open>for i, result in batch_data.items(): global_results[f"{batch_idx}_{i}"] = result\<close>.
  A dictionary is an association list; assignment replaces the value of a key that is
  present and appends a new key (\<open>AList.update\<close>).
\<close>

fun merge_items :: "int \<Rightarrow> (string \<times> 'v) list \<Rightarrow> (string \<times> 'v) list \<Rightarrow> (string \<times> 'v) list" where
  "merge_items batch_idx [] g = g"
| "merge_items batch_idx ((i, result) # items) g =
     merge_items batch_idx items (AList.update (result_key batch_idx i) result g)"

text \<open>The second loop, over the sorted list; a file that fails to load is reported.\<close>

fun load_batches ::
  "(int \<times> string \<times> 'v file_content) list \<Rightarrow> (string \<times> 'v) list \<Rightarrow> console_msg list
     \<Rightarrow> (string \<times> 'v) list \<times> console_msg list" where
  "load_batches [] g out = (g, out)"
| "load_batches ((batch_idx, fname, c) # bs) g out =
     (case c of
        Loaded items \<Rightarrow>
          load_batches bs (merge_items batch_idx items g)
            (out @ [Loaded_batch batch_idx (length items)])
      | Unreadable \<Rightarrow> load_batches bs g (out @ [Failed_to_load fname]))"

text \<open>
  \<^verbatim>\<open>list.sort(key=lambda x: x[0])\<close> is stable, as \<open>sort_key fst\<close> is. The result is the
  checkpoint together with the console output.
\<close>

definition load_checkpoint ::
  "bool \<Rightarrow> (string \<times> 'v file_content) list \<Rightarrow> 'v checkpoint \<times> console_msg list" where
  "load_checkpoint force_regenerate dir =
     (if force_regenerate then
        (\<lparr>current_batch_idx = 0, global_results = [], global_errors = []\<rparr>,
         [Force_regeneration])
      else
        (let batch_files = glob_batch_files dir;
             (unsorted, out1) = scan_names batch_files [] [];
             batch_files_with_idx = sort_key fst unsorted;
             (results, out2) =
               (if batch_files_with_idx \<noteq> [] then
                  load_batches batch_files_with_idx []
                    (out1 @ [Found_existing (length batch_files_with_idx)])
                else ([], out1));
             start_batch_idx =
               (if batch_files_with_idx \<noteq> [] then fst (last batch_files_with_idx) + 1 else 0);
             out3 =
               (if batch_files_with_idx \<noteq> [] then
                  out2 @ [Resuming_from start_batch_idx (length results)]
                else out2)
         in (\<lparr>current_batch_idx = start_batch_idx, global_results = results,
              global_errors = []\<rparr>, out3)))"






section \<open>Batch runner (\<^verbatim>\<open>DifficultyFilterPipeline.run_inference\<close>)\<close>

text \<open>
  Exceptions as values: the runner's own \<^verbatim>\<open>RuntimeError\<close> for a sample that is not
  template-expanded, and \<^verbatim>\<open>IndexError\<close> for indexing a column past its end.
\<close>

datatype py_error = Chat_template_error | Index_error

definition item :: "'a list \<Rightarrow> nat \<Rightarrow> py_error + 'a" where
  "item xs i = (case nth_opt xs i of None \<Rightarrow> Inl Index_error | Some x \<Rightarrow> Inr x)"

definition bind_err :: "'e + 'a \<Rightarrow> ('a \<Rightarrow> 'e + 'b) \<Rightarrow> 'e + 'b" where
  "bind_err m f = (case m of Inl e \<Rightarrow> Inl e | Inr x \<Rightarrow> f x)"

text \<open>
  A collated batch, by the columns the runner reads:
  \<^verbatim>\<open>batch_dict["prompt"]\<close>, \<^verbatim>\<open>batch_dict["reward_model"]["ground_truth"]\<close>,
  \<^verbatim>\<open>batch_dict["data_source"]\<close>, \<^verbatim>\<open>batch_dict["extra_info"]\<close> (a dictionary of columns)
  and \<^verbatim>\<open>batch_dict.get("apply_chat_template", ...)\<close>, a column that may be absent.
  Ground truths and auxiliary values are opaque (\<open>'g\<close>, \<open>'x\<close>).
\<close>

record message =
  role :: string
  content :: string

record ('g, 'x) batch_dict =
  prompt :: "message list list"
  ground_truth :: "'g list"
  data_source :: "string list"
  extra_info :: "(string \<times> 'x list) list"
  apply_chat_template :: "bool list option"

text \<open>
  A stored sample. The runner writes the first six fields; the scoring pass adds the
  last three, which are absent (\<open>None\<close>) until then. A detail is the dictionary a
  scoring task returns, its values numbers or text.
\<close>

datatype jvalue = Num real | Str string

type_synonym detail = "(string \<times> jvalue) list"

record ('g, 'x) sample =
  messages :: "message list"
  question :: string
  sample_ground_truth :: 'g
  source :: string
  responses :: "string list"
  sample_extra_info :: "(string \<times> 'x) list"
  detailed_scores :: "detail list option"
  scores :: "jvalue list option"
  pass_rate :: "real option"

text \<open>
  \<^verbatim>\<open>next((m["content"] for m in messages if m["role"] == "user"), "No question found")\<close>
\<close>

fun first_user_content :: "message list \<Rightarrow> string" where
  "first_user_content [] = ''No question found''"
| "first_user_content (m # ms) = (if role m = ''user'' then content m else first_user_content ms)"

text \<open>\<^verbatim>\<open>{k: batch_dict["extra_info"][k][i] for k in batch_dict["extra_info"]}\<close>\<close>

fun extra_row :: "(string \<times> 'x list) list \<Rightarrow> nat \<Rightarrow> py_error + (string \<times> 'x) list" where
  "extra_row [] i = Inr []"
| "extra_row ((k, col) # cols) i =
     bind_err (item col i) (\<lambda>v. bind_err (extra_row cols i) (\<lambda>r. Inr ((k, v) # r)))"

text \<open>
  \<^verbatim>\<open>process_batch_outputs\<close>: one sample per output, \<open>outputs ! i\<close> being the texts
  \<^verbatim>\<open>[r.text for r in outputs[i].outputs]\<close>. The result dictionary has the keys
  \<open>0, 1, ...\<close> in order.
\<close>

definition make_sample ::
  "string list \<Rightarrow> ('g, 'x) batch_dict \<Rightarrow> nat \<Rightarrow> py_error + ('g, 'x) sample" where
  "make_sample full_responses batch i =
     bind_err (item (data_source batch) i) (\<lambda>ds.
     bind_err (item (ground_truth batch) i) (\<lambda>gt.
     bind_err (item (prompt batch) i) (\<lambda>msgs.
     bind_err (extra_row (extra_info batch) i) (\<lambda>ei.
       Inr \<lparr>messages = msgs, question = first_user_content msgs,
            sample_ground_truth = gt, source = ds, responses = full_responses,
            sample_extra_info = ei, detailed_scores = None, scores = None,
            pass_rate = None\<rparr>))))"

fun samples_from ::
  "nat \<Rightarrow> string list list \<Rightarrow> ('g, 'x) batch_dict \<Rightarrow> py_error + (nat \<times> ('g, 'x) sample) list" where
  "samples_from i [] batch = Inr []"
| "samples_from i (out # outs) batch =
     bind_err (make_sample out batch i) (\<lambda>s.
     bind_err (samples_from (Suc i) outs batch) (\<lambda>r. Inr ((i, s) # r)))"

definition process_batch_outputs ::
  "string list list \<Rightarrow> ('g, 'x) batch_dict \<Rightarrow> py_error + (nat \<times> ('g, 'x) sample) list" where
  "process_batch_outputs outputs batch = samples_from 0 outputs batch"

text \<open>
  The state the loop threads: the results dictionary, the rank's directory, the
  prompts each call of the generation collaborator (\<^verbatim>\<open>self.model.chat\<close>) was given, and
  the console. The collaborator is the parameter \<open>chat\<close>, from the prompts of a batch to
  the completion texts of each.
\<close>

record ('g, 'x) runner_state =
  results :: "(string \<times> ('g, 'x) sample) list"
  files :: "(string \<times> ('g, 'x) sample file_content) list"
  chat_calls :: "message list list list"
  console :: "console_msg list"

text \<open>\<^verbatim>\<open>global_results.update({f"{idx}_{i}": r for i, r in batch_results.items()})\<close>\<close>

fun update_results ::
  "int \<Rightarrow> (nat \<times> 'v) list \<Rightarrow> (string \<times> 'v) list \<Rightarrow> (string \<times> 'v) list" where
  "update_results idx [] g = g"
| "update_results idx ((i, r) # rs) g =
     update_results idx rs (AList.update (result_key idx (str_nat i)) r g)"

text \<open>\<^verbatim>\<open>json.dump(batch_results, f)\<close>: the integer keys are written as strings.\<close>

definition dumped :: "(nat \<times> 'v) list \<Rightarrow> 'v file_content" where
  "dumped batch_results = Loaded (map (\<lambda>(i, r). (str_nat i, r)) batch_results)"

text \<open>
  \<^verbatim>\<open>all(batch_dict.get("apply_chat_template", [True] * batch_size))\<close> with
  \<^verbatim>\<open>batch_size = len(batch_dict["reward_model"]["ground_truth"])\<close>
\<close>

definition all_templated :: "('g, 'x) batch_dict \<Rightarrow> bool" where
  "all_templated batch =
     list_all (\<lambda>v. v)
       (case apply_chat_template batch of
          None \<Rightarrow> replicate (length (ground_truth batch)) True
        | Some col \<Rightarrow> col)"

text \<open>
  The body of the main loop for the batch numbered \<open>idx\<close>. An exception ends it where it
  is raised; the state returned with it holds what had been done by then.
\<close>

definition process_batch ::
  "(message list list \<Rightarrow> string list list) \<Rightarrow> ('g, 'x) runner_state \<Rightarrow> int
     \<Rightarrow> ('g, 'x) batch_dict \<Rightarrow> py_error option \<times> ('g, 'x) runner_state" where
  "process_batch chat st idx batch =
     (let st1 = st\<lparr>console := console st @ [Generating idx]\<rparr> in
      if \<not> all_templated batch then (Some Chat_template_error, st1)
      else
        (let outputs = chat (prompt batch);
             st2 = st1\<lparr>chat_calls := chat_calls st1 @ [prompt batch]\<rparr>
         in case process_batch_outputs outputs batch of
              Inl e \<Rightarrow> (Some e, st2)
            | Inr batch_results \<Rightarrow>
                (None,
                 st2\<lparr>results := update_results idx batch_results (results st2),
                     files := AList.update (batch_file_name idx) (dumped batch_results) (files st2),
                     console := console st2 @ [Saved_batch (batch_file_name idx)]\<rparr>)))"

text \<open>\<^verbatim>\<open>for idx, batch_dict in enumerate(batch_iter, start=start_batch_idx)\<close>, no handler around it.\<close>

fun main_loop ::
  "(message list list \<Rightarrow> string list list) \<Rightarrow> ('g, 'x) runner_state \<Rightarrow> int
     \<Rightarrow> ('g, 'x) batch_dict list \<Rightarrow> py_error option \<times> ('g, 'x) runner_state" where
  "main_loop chat st idx [] = (None, st)"
| "main_loop chat st idx (batch # rest) =
     (case process_batch chat st idx batch of
        (Some e, st') \<Rightarrow> (Some e, st')
      | (None, st') \<Rightarrow> main_loop chat st' (idx + 1) rest)"

text \<open>
  \<^verbatim>\<open>
  for _ in range(start_batch_idx):
      try:
          next(batch_iter)
      except StopIteration:
          console.print(...exceeds dataset size...)
          break
  \<close>
  The iterator is the list of the batches still to come; the flag tells whether
  \<^verbatim>\<open>StopIteration\<close> was met.
\<close>

fun skip_completed :: "nat \<Rightarrow> 'b list \<Rightarrow> 'b list \<times> bool" where
  "skip_completed 0 it = (it, False)"
| "skip_completed (Suc n) [] = ([], True)"
| "skip_completed (Suc n) (b # bs) = skip_completed n bs"

definition run_batches ::
  "(message list list \<Rightarrow> string list list) \<Rightarrow> int \<Rightarrow> ('g, 'x) batch_dict list
     \<Rightarrow> ('g, 'x) runner_state \<Rightarrow> py_error option \<times> ('g, 'x) runner_state" where
  "run_batches chat start_batch_idx batches st =
     (let (batch_iter, stopped) = skip_completed (nat start_batch_idx) batches;
          st1 = (if stopped
                 then st\<lparr>console := console st @ [Checkpoint_exceeds start_batch_idx]\<rparr>
                 else st)
      in main_loop chat st1 start_batch_idx batch_iter)"

text \<open>
  \<^verbatim>\<open>run_inference\<close> from the checkpoint on: \<open>batches\<close> is what the data loader yields
  for the shard, \<open>dir\<close> the rank's directory before the run.
\<close>

definition run_inference ::
  "(message list list \<Rightarrow> string list list) \<Rightarrow> bool
     \<Rightarrow> (string \<times> ('g, 'x) sample file_content) list \<Rightarrow> ('g, 'x) batch_dict list
     \<Rightarrow> py_error option \<times> ('g, 'x) runner_state" where
  "run_inference chat force_regenerate dir batches =
     (let (chk, out) = load_checkpoint force_regenerate dir;
          st = \<lparr>results = global_results chk, files = dir, chat_calls = [], console = out\<rparr>
      in run_batches chat (current_batch_idx chk) batches st)"

section \<open>One scoring task (\<^verbatim>\<open>compute_single_reward\<close>)\<close>

text \<open>
  The scoring collaborator \<^verbatim>\<open>_default_compute_score\<close> is external. What a call of it does
  is a value: it finishes after some seconds, returning or raising, or it never finishes.
  It returns a bare number, a dictionary, or something \<^verbatim>\<open>float()\<close> rejects (with the
  message of that \<^verbatim>\<open>TypeError\<close> or \<^verbatim>\<open>ValueError\<close>). An exception it raises is a
  \<^verbatim>\<open>TimeoutError\<close> (or a subclass), another \<^verbatim>\<open>Exception\<close>, or a \<^verbatim>\<open>BaseException\<close> that
  is not an \<^verbatim>\<open>Exception\<close> (\<^verbatim>\<open>KeyboardInterrupt\<close>, \<^verbatim>\<open>SystemExit\<close>); the string is
  \<^verbatim>\<open>str(e)\<close>.
\<close>

datatype exn_class = Timeout_error | Other_exception | Base_exception

datatype scorer_result = Bare real | Structured detail | Not_a_number string

datatype final = Returns scorer_result | Raises exn_class string

datatype scorer_run = Finishes nat final | Hangs

text \<open>
  How a call of \<^verbatim>\<open>compute_single_reward\<close> ends: with its return value, with an exception
  that leaves it, or never.
\<close>

datatype 'a outcome = Result 'a | Propagates exn_class string | No_return

text \<open>
  \<^verbatim>\<open>{"score": 0.0, "error": f"task_timeout>{_TASK_TIMEOUT}s"}\<close> and
  \<^verbatim>\<open>{"score": 0.0, "error": str(e)}\<close>. The global \<^verbatim>\<open>_TASK_TIMEOUT\<close> is \<open>None\<close> until
  the pool's initializer sets it.
\<close>

definition timeout_detail :: "nat option \<Rightarrow> detail" where
  "timeout_detail task_timeout =
     [(''score'', Num 0),
      (''error'', Str (''task_timeout>''
                        @ (case task_timeout of None \<Rightarrow> ''None'' | Some t \<Rightarrow> str_nat t)
                        @ ''s''))]"

definition error_detail :: "string \<Rightarrow> detail" where
  "error_detail msg = [(''score'', Num 0), (''error'', Str msg)]"

text \<open>
  The body of the \<^verbatim>\<open>try\<close> once the collaborator has returned, and the two handlers.
  \<^verbatim>\<open>detailed.get("score", 0.0)\<close> followed by \<^verbatim>\<open>detailed["score"] = score\<close> keeps a score
  that is present and adds \<open>0.0\<close> where there is none.
\<close>

definition with_score :: "detail \<Rightarrow> detail" where
  "with_score detailed =
     AList.update ''score''
       (case map_of detailed ''score'' of None \<Rightarrow> Num 0 | Some v \<Rightarrow> v) detailed"

fun handle_final :: "nat option \<Rightarrow> nat \<Rightarrow> final \<Rightarrow> (nat \<times> detail) outcome" where
  "handle_final task_timeout gid (Returns (Structured d)) = Result (gid, with_score d)"
| "handle_final task_timeout gid (Returns (Bare x)) = Result (gid, [(''score'', Num x)])"
| "handle_final task_timeout gid (Returns (Not_a_number msg)) = Result (gid, error_detail msg)"
| "handle_final task_timeout gid (Raises Timeout_error msg) =
     Result (gid, timeout_detail task_timeout)"
| "handle_final task_timeout gid (Raises Other_exception msg) = Result (gid, error_detail msg)"
| "handle_final task_timeout gid (Raises Base_exception msg) = Propagates Base_exception msg"

text \<open>
  \<^verbatim>\<open>signal.alarm(_TASK_TIMEOUT)\<close> is called only when the global is set, and
  \<^verbatim>\<open>signal.alarm(0)\<close> schedules nothing. When the alarm goes off before the collaborator
  has finished, the handler raises \<^verbatim>\<open>TimeoutError\<close> inside the call, which is taken to
  leave the collaborator and reach the \<^verbatim>\<open>except TimeoutError\<close> clause. The timeout is a
  natural number of seconds; a negative \<^verbatim>\<open>--task_timeout\<close> is left out.
\<close>

definition armed_alarm :: "nat option \<Rightarrow> nat option" where
  "armed_alarm task_timeout =
     (case task_timeout of None \<Rightarrow> None | Some t \<Rightarrow> if t = 0 then None else Some t)"

definition compute_single_reward ::
  "nat option \<Rightarrow> nat \<Rightarrow> scorer_run \<Rightarrow> (nat \<times> detail) outcome" where
  "compute_single_reward task_timeout gid run =
     (case armed_alarm task_timeout of
        None \<Rightarrow> (case run of Hangs \<Rightarrow> No_return
                          | Finishes d f \<Rightarrow> handle_final task_timeout gid f)
      | Some t \<Rightarrow> (case run of
                     Hangs \<Rightarrow> Result (gid, timeout_detail task_timeout)
                   | Finishes d f \<Rightarrow>
                       if d < t then handle_final task_timeout gid f
                       else Result (gid, timeout_detail task_timeout)))"

text \<open>
  \<^verbatim>\<open>main\<close>: the number of workers, and the value of \<^verbatim>\<open>_TASK_TIMEOUT\<close> where the tasks
  run. A pool is created, and its initializer run in every worker, only for more than
  one worker; otherwise the tasks run in the main process, where the global keeps its
  initial \<open>None\<close>.
\<close>

definition pool_workers :: "int \<Rightarrow> int \<Rightarrow> int" where
  "pool_workers avail reward_workers =
     (let reserved = max 1 (avail div 8)
      in if reward_workers \<le> 1 then 1 else min reward_workers (max 1 (avail - reserved)))"

definition worker_timeout :: "int \<Rightarrow> nat \<Rightarrow> nat option" where
  "worker_timeout workers task_timeout = (if workers > 1 then Some task_timeout else None)"

section \<open>Scoring a rank directory (\<^verbatim>\<open>score_rank_dir\<close>) and \<^verbatim>\<open>main\<close>\<close>

text \<open>
  The options the scoring pass reads, and the collaborator as a function of what it is
  given (\<^verbatim>\<open>data_source\<close>, \<^verbatim>\<open>solution_str\<close>, \<^verbatim>\<open>ground_truth\<close>, \<^verbatim>\<open>extra_info\<close>) to what
  the call does. A task is the tuple
  \<^verbatim>\<open>(gid, stripped, sample["source"], sample["ground_truth"], sample["extra_info"])\<close>.
\<close>

record config =
  debug :: bool
  recalculate_rewards :: bool
  correct_reward_threshold :: real

type_synonym ('g, 'x) task = "nat \<times> string \<times> string \<times> 'g \<times> (string \<times> 'x) list"

type_synonym ('g, 'x) scorer = "string \<Rightarrow> string \<Rightarrow> 'g \<Rightarrow> (string \<times> 'x) list \<Rightarrow> scorer_run"

text \<open>
  Where the scoring pass stops without finishing: a batch file that does not load, a
  missing dictionary key, a comparison of text with a number, an exception that left a
  scoring task, or a task that never returns.
\<close>

datatype stop = Load_failed string | Key_error | Type_error | Escaped exn_class string | Never_returns

text \<open>
  \<^verbatim>\<open>raw_resp.split("</think>", 1)[1] if "</think>" in raw_resp else raw_resp\<close>: what
  follows the first occurrence of the marker.
\<close>

fun after_marker :: "string \<Rightarrow> string \<Rightarrow> string option" where
  "after_marker m [] = (if m = [] then Some [] else None)"
| "after_marker m (c # cs) =
     (if take (length m) (c # cs) = m then Some (drop (length m) (c # cs))
      else after_marker m cs)"

definition strip_reasoning :: "string \<Rightarrow> string" where
  "strip_reasoning raw_resp =
     (case after_marker ''</think>'' raw_resp of Some rest \<Rightarrow> rest | None \<Rightarrow> raw_resp)"

text \<open>The truth value of \<^verbatim>\<open>sample.get("scores")\<close>: a list that is there and not empty.\<close>

definition has_scores :: "('g, 'x) sample \<Rightarrow> bool" where
  "has_scores s = (case scores s of None \<Rightarrow> False | Some xs \<Rightarrow> xs \<noteq> [])"

text \<open>\<^verbatim>\<open>f"{batch_name}_{s_idx}"\<close>, the key of a sample in the rank's results.\<close>

definition rank_key :: "string \<Rightarrow> string \<Rightarrow> string" where
  "rank_key batch_name s_idx = batch_name @ ''_'' @ s_idx"

text \<open>
  The first loop over \<^verbatim>\<open>batch.items()\<close>: a sample that has scores (and no recompute) goes
  to the rank's results as it is; every other sample gives one task per response, the
  task ids counting up from \<open>gid\<close>, and \<^verbatim>\<open>lookup\<close> maps each id to the sample's key.
\<close>

fun sample_tasks :: "nat \<Rightarrow> ('g, 'x) sample \<Rightarrow> string list \<Rightarrow> ('g, 'x) task list" where
  "sample_tasks gid s [] = []"
| "sample_tasks gid s (raw_resp # rest) =
     (gid, strip_reasoning raw_resp, source s, sample_ground_truth s, sample_extra_info s)
       # sample_tasks (Suc gid) s rest"

fun build_tasks ::
  "bool \<Rightarrow> string \<Rightarrow> (string \<times> ('g, 'x) sample) list \<Rightarrow> nat
     \<Rightarrow> (string \<times> ('g, 'x) sample) list
     \<Rightarrow> ('g, 'x) task list \<times> (nat \<times> string) list \<times> (string \<times> ('g, 'x) sample) list" where
  "build_tasks recalc batch_name [] gid rank_results = ([], [], rank_results)"
| "build_tasks recalc batch_name ((s_idx, s) # rest) gid rank_results =
     (if \<not> recalc \<and> has_scores s then
        build_tasks recalc batch_name rest gid
          (AList.update (rank_key batch_name s_idx) s rank_results)
      else
        (let ts = sample_tasks gid s (responses s);
             (ts', lookup', rank_results') =
               build_tasks recalc batch_name rest (gid + length (responses s)) rank_results
         in (ts @ ts', map (\<lambda>t. (fst t, s_idx)) ts @ lookup', rank_results')))"

text \<open>
  \<^verbatim>\<open>map(compute_single_reward, tasks)\<close>, consumed to its end: the results in task order,
  unless a task lets an exception out or never returns.
\<close>

fun run_tasks ::
  "nat option \<Rightarrow> ('g, 'x) scorer \<Rightarrow> ('g, 'x) task list \<Rightarrow> stop + (nat \<times> detail) list" where
  "run_tasks task_timeout scorer [] = Inr []"
| "run_tasks task_timeout scorer ((gid, resp, src, gt, ei) # ts) =
     (case compute_single_reward task_timeout gid (scorer src resp gt ei) of
        Result r \<Rightarrow> bind_err (run_tasks task_timeout scorer ts) (\<lambda>rs. Inr (r # rs))
      | Propagates c msg \<Rightarrow> Inl (Escaped c msg)
      | No_return \<Rightarrow> Inl Never_returns)"

text \<open>
  \<^verbatim>\<open>
  for gidx, detailed in results_iter:
      s_idx = lookup[gidx]
      detailed_by_sample.setdefault(s_idx, []).append(detailed)
  \<close>
\<close>

fun group_results ::
  "(nat \<times> string) list \<Rightarrow> (nat \<times> detail) list \<Rightarrow> (string \<times> detail list) list
     \<Rightarrow> stop + (string \<times> detail list) list" where
  "group_results lookup [] by_sample = Inr by_sample"
| "group_results lookup ((gidx, detailed) # rest) by_sample =
     (case map_of lookup gidx of
        None \<Rightarrow> Inl Key_error
      | Some s_idx \<Rightarrow>
          group_results lookup rest
            (AList.update s_idx
               ((case map_of by_sample s_idx of None \<Rightarrow> [] | Some ds \<Rightarrow> ds) @ [detailed])
               by_sample))"

text \<open>
  \<^verbatim>\<open>d["score"]\<close> and \<^verbatim>\<open>s >= args.correct_reward_threshold\<close>: a missing key and text
  compared with a number raise.
\<close>

definition score_of :: "detail \<Rightarrow> stop + jvalue" where
  "score_of d = (case map_of d ''score'' of None \<Rightarrow> Inl Key_error | Some v \<Rightarrow> Inr v)"

definition meets :: "real \<Rightarrow> jvalue \<Rightarrow> stop + bool" where
  "meets threshold v = (case v of Num x \<Rightarrow> Inr (threshold \<le> x) | Str s \<Rightarrow> Inl Type_error)"

fun map_err :: "('a \<Rightarrow> 'e + 'b) \<Rightarrow> 'a list \<Rightarrow> 'e + 'b list" where
  "map_err f [] = Inr []"
| "map_err f (x # xs) = bind_err (f x) (\<lambda>y. bind_err (map_err f xs) (\<lambda>ys. Inr (y # ys)))"

text \<open>
  What \<^verbatim>\<open>sample.update({...})\<close> writes: the details, the scores read from them, and
  \<^verbatim>\<open>pass_cnt / len(scores) if scores else 0.0\<close>. The quotient is the exact one; Python
  rounds it to the nearest double.
\<close>

definition scored_sample ::
  "real \<Rightarrow> detail list \<Rightarrow> ('g, 'x) sample \<Rightarrow> stop + ('g, 'x) sample" where
  "scored_sample threshold detailed_list s =
     bind_err (map_err score_of detailed_list) (\<lambda>scs.
     bind_err (map_err (meets threshold) scs) (\<lambda>passed.
       Inr (s\<lparr>detailed_scores := Some detailed_list,
              scores := Some scs,
              pass_rate := Some (if scs \<noteq> []
                                 then real (length (filter (\<lambda>p. p) passed)) / real (length scs)
                                 else 0)\<rparr>)))"

text \<open>
  The second loop over \<^verbatim>\<open>batch.items()\<close>: a sample with collected details is updated in
  place and entered in the rank's results; the others are left alone.
\<close>

fun update_samples ::
  "real \<Rightarrow> string \<Rightarrow> (string \<times> detail list) list \<Rightarrow> (string \<times> ('g, 'x) sample) list
     \<Rightarrow> (string \<times> ('g, 'x) sample) list
     \<Rightarrow> stop + (string \<times> ('g, 'x) sample) list \<times> (string \<times> ('g, 'x) sample) list" where
  "update_samples threshold batch_name by_sample [] rank_results = Inr ([], rank_results)"
| "update_samples threshold batch_name by_sample ((s_idx, s) # rest) rank_results =
     (case map_of by_sample s_idx of
        None \<Rightarrow>
          bind_err (update_samples threshold batch_name by_sample rest rank_results)
            (\<lambda>(items', rr). Inr ((s_idx, s) # items', rr))
      | Some detailed_list \<Rightarrow>
          bind_err (scored_sample threshold detailed_list s) (\<lambda>s'.
          bind_err (update_samples threshold batch_name by_sample rest
                      (AList.update (rank_key batch_name s_idx) s' rank_results))
            (\<lambda>(items', rr). Inr ((s_idx, s') # items', rr))))"

text \<open>
  One batch file. \<open>reward_pool\<close> is \<open>None\<close> for the sequential path, where the results come
  in task order; with a pool, \<^verbatim>\<open>imap_unordered\<close> hands them over in the order they
  complete, which is the pool's to choose: the order is the function the pool is
  modelled by. The result is the batch as rewritten, the rank's results, and the number
  of tasks.
\<close>

definition score_batch ::
  "config \<Rightarrow> nat option \<Rightarrow> ('g, 'x) scorer
     \<Rightarrow> ((nat \<times> detail) list \<Rightarrow> (nat \<times> detail) list) option
     \<Rightarrow> string \<Rightarrow> (string \<times> ('g, 'x) sample) list \<Rightarrow> (string \<times> ('g, 'x) sample) list
     \<Rightarrow> stop + (string \<times> ('g, 'x) sample) list \<times> (string \<times> ('g, 'x) sample) list \<times> nat" where
  "score_batch cfg task_timeout scorer reward_pool batch_name batch rank_results =
     (let (tasks, lookup, rr1) =
            build_tasks (recalculate_rewards cfg) batch_name batch 0 rank_results
      in if tasks \<noteq> [] then
           bind_err (run_tasks task_timeout scorer tasks) (\<lambda>computed.
           bind_err (group_results lookup
                       (case reward_pool of None \<Rightarrow> computed | Some deliver \<Rightarrow> deliver computed) [])
             (\<lambda>by_sample.
           bind_err (update_samples (correct_reward_threshold cfg) batch_name by_sample batch rr1)
             (\<lambda>(batch', rr2). Inr (batch', rr2, length tasks))))
         else Inr (batch, rr1, 0))"

text \<open>\<^verbatim>\<open>sorted(glob.glob(...))\<close>: the matched names in the order of their characters' codes.\<close>

fun str_less :: "string \<Rightarrow> string \<Rightarrow> bool" where
  "str_less [] [] = False"
| "str_less [] (d # t) = True"
| "str_less (c # s) [] = False"
| "str_less (c # s) (d # t) =
     ((of_char c :: nat) < of_char d \<or> (c = d \<and> str_less s t))"

fun insert_name :: "string \<Rightarrow> string list \<Rightarrow> string list" where
  "insert_name x [] = [x]"
| "insert_name x (y # ys) = (if str_less y x then y # insert_name x ys else x # y # ys)"

definition sorted_names :: "string list \<Rightarrow> string list" where
  "sorted_names xs = foldr insert_name xs []"

text \<open>
  The final summary, and what a call of \<^verbatim>\<open>score_rank_dir\<close> leaves: the directory with the
  batch files rewritten so far, the summary if it was written, and the exception that
  ended the call if one did. \<open>elapsed\<close> is the time the clock measured.
\<close>

record metrics =
  total_time :: real
  num_responses :: nat
  avg_reward_time :: real

record ('g, 'x) summary =
  summary_results :: "(string \<times> ('g, 'x) sample) list"
  summary_errors :: "(string \<times> jvalue) list"
  summary_metrics :: metrics

record ('g, 'x) rank_outcome =
  rank_files :: "(string \<times> ('g, 'x) sample file_content) list"
  final_summary :: "('g, 'x) summary option"
  stopped :: "stop option"

text \<open>
  The loop over the batch files: load, score, write the batch back. An exception leaves
  the files written so far and no summary.
\<close>

fun score_files ::
  "config \<Rightarrow> nat option \<Rightarrow> ('g, 'x) scorer
     \<Rightarrow> ((nat \<times> detail) list \<Rightarrow> (nat \<times> detail) list) option
     \<Rightarrow> string list \<Rightarrow> (string \<times> ('g, 'x) sample file_content) list
     \<Rightarrow> (string \<times> ('g, 'x) sample) list \<Rightarrow> nat
     \<Rightarrow> stop option \<times> (string \<times> ('g, 'x) sample file_content) list
         \<times> (string \<times> ('g, 'x) sample) list \<times> nat" where
  "score_files cfg task_timeout scorer reward_pool [] dir rank_results total_responses =
     (None, dir, rank_results, total_responses)"
| "score_files cfg task_timeout scorer reward_pool (batch_name # rest) dir rank_results
       total_responses =
     (case map_of dir batch_name of
        None \<Rightarrow> (Some (Load_failed batch_name), dir, rank_results, total_responses)
      | Some Unreadable \<Rightarrow> (Some (Load_failed batch_name), dir, rank_results, total_responses)
      | Some (Loaded batch) \<Rightarrow>
          (case score_batch cfg task_timeout scorer reward_pool batch_name batch rank_results of
             Inl e \<Rightarrow> (Some e, dir, rank_results, total_responses)
           | Inr (batch', rr, n) \<Rightarrow>
               score_files cfg task_timeout scorer reward_pool rest
                 (AList.update batch_name (Loaded batch') dir) rr (total_responses + n)))"

definition score_rank_dir ::
  "config \<Rightarrow> nat option \<Rightarrow> ('g, 'x) scorer
     \<Rightarrow> ((nat \<times> detail) list \<Rightarrow> (nat \<times> detail) list) option
     \<Rightarrow> real \<Rightarrow> (string \<times> ('g, 'x) sample file_content) list \<Rightarrow> ('g, 'x) rank_outcome" where
  "score_rank_dir cfg task_timeout scorer reward_pool elapsed dir =
     (let batch_files =
            (if debug cfg then [''batch_00000.json'']
             else sorted_names (map fst (glob_batch_files dir)))
      in if batch_files = [] then \<lparr>rank_files = dir, final_summary = None, stopped = None\<rparr>
         else
           (case score_files cfg task_timeout scorer reward_pool batch_files dir [] 0 of
              (Some e, dir', rr, n) \<Rightarrow>
                \<lparr>rank_files = dir', final_summary = None, stopped = Some e\<rparr>
            | (None, dir', rr, n) \<Rightarrow>
                \<lparr>rank_files = dir',
                 final_summary =
                   Some \<lparr>summary_results = rr, summary_errors = [],
                         summary_metrics =
                           \<lparr>total_time = elapsed, num_responses = n,
                            avg_reward_time = elapsed / real (max 1 n)\<rparr>\<rparr>,
                 stopped = None\<rparr>))"




section \<open>Notions the proofs use\<close>

text \<open>The value of a string of decimal digits.\<close>

definition dec_value :: "string \<Rightarrow> nat" where
  "dec_value s = foldl (\<lambda>a c. 10 * a + digit_val c) 0 s"

text \<open>
  What the first loop of the resolver computes, in closed form: the files with their
  numbers, in listing order, and the messages for the names that give none.
\<close>

definition indexed :: "(string \<times> 'c) list \<Rightarrow> (int \<times> string \<times> 'c) list" where
  "indexed fs =
     List.map_filter (\<lambda>(fname, c). map_option (\<lambda>n. (n, fname, c)) (parse_batch_num fname)) fs"

definition name_warnings :: "(string \<times> 'c) list \<Rightarrow> console_msg list" where
  "name_warnings fs =
     map (\<lambda>f. Could_not_parse (fst f)) (filter (\<lambda>f. parse_batch_num (fst f) = None) fs)"





section \<open>Notions for the scoring pass\<close>

text \<open>
  Whether a collaborator that takes \<open>dur\<close> seconds finishes before the alarm goes off, if
  one is armed.
\<close>

definition in_time :: "nat option \<Rightarrow> nat \<Rightarrow> bool" where
  "in_time task_timeout dur = (case armed_alarm task_timeout of None \<Rightarrow> True | Some t \<Rightarrow> dur < t)"

text \<open>
  The detail a task returns does not depend on its id: \<open>task_detail\<close> is that detail, if
  the task returns. \<open>response_detail\<close> is the detail of the task made for one response of
  a sample.
\<close>

definition task_detail :: "nat option \<Rightarrow> scorer_run \<Rightarrow> detail option" where
  "task_detail task_timeout run =
     (case compute_single_reward task_timeout 0 run of Result r \<Rightarrow> Some (snd r) | _ \<Rightarrow> None)"

definition payload_detail ::
  "nat option \<Rightarrow> ('g, 'x) scorer \<Rightarrow> string \<times> string \<times> 'g \<times> (string \<times> 'x) list \<Rightarrow> detail" where
  "payload_detail task_timeout scorer p =
     (case p of (resp, src, gt, ei) \<Rightarrow> the (task_detail task_timeout (scorer src resp gt ei)))"

definition sample_payload ::
  "('g, 'x) sample \<Rightarrow> string \<Rightarrow> string \<times> string \<times> 'g \<times> (string \<times> 'x) list" where
  "sample_payload s raw_resp =
     (strip_reasoning raw_resp, source s, sample_ground_truth s, sample_extra_info s)"

definition response_detail ::
  "nat option \<Rightarrow> ('g, 'x) scorer \<Rightarrow> ('g, 'x) sample \<Rightarrow> string \<Rightarrow> detail" where
  "response_detail task_timeout scorer s raw_resp =
     payload_detail task_timeout scorer (sample_payload s raw_resp)"

text \<open>
  A detail whose score is a number, and a call of the collaborator that a task turns
  into such a detail: it neither lets an exception out nor fails to return.
\<close>

definition numeric_score :: "detail \<Rightarrow> bool" where
  "numeric_score d = (case map_of d ''score'' of Some (Num x) \<Rightarrow> True | _ \<Rightarrow> False)"

definition contained :: "nat option \<Rightarrow> scorer_run \<Rightarrow> bool" where
  "contained task_timeout run =
     (case task_detail task_timeout run of Some d \<Rightarrow> numeric_score d | None \<Rightarrow> False)"

text \<open>A score that meets the threshold.\<close>

definition passes :: "real \<Rightarrow> jvalue \<Rightarrow> bool" where
  "passes threshold v = (case v of Num x \<Rightarrow> threshold \<le> x | Str s \<Rightarrow> False)"

text \<open>
  For the proofs: the task ids \<^verbatim>\<open>lookup\<close> routes to a sample, the samples that get
  tasks, and the details that arrive for a sample, in arrival order.
\<close>

definition owned :: "(nat \<times> string) list \<Rightarrow> string \<Rightarrow> nat \<Rightarrow> bool" where
  "owned lookup k g = (map_of lookup g = Some k)"

definition to_score ::
  "bool \<Rightarrow> (string \<times> ('g, 'x) sample) list \<Rightarrow> (string \<times> ('g, 'x) sample) list" where
  "to_score recalc items = filter (\<lambda>(k, s). recalc \<or> \<not> has_scores s) items"

definition arrived_for :: "(nat \<times> string) list \<Rightarrow> string \<Rightarrow> (nat \<times> detail) list \<Rightarrow> detail list" where
  "arrived_for lookup k arrived = map snd (filter (\<lambda>r. owned lookup k (fst r)) arrived)"

text \<open>
  A batch all of whose scoring calls are contained, and a rank directory all of whose
  loaded batch files are such batches.
\<close>

definition contained_batch ::
  "nat option \<Rightarrow> ('g, 'x) scorer \<Rightarrow> (string \<times> ('g, 'x) sample) list \<Rightarrow> bool" where
  "contained_batch task_timeout scorer batch =
     (\<forall>(k, s)\<in>set batch. \<forall>raw\<in>set (responses s).
        contained task_timeout
          (scorer (source s) (strip_reasoning raw) (sample_ground_truth s) (sample_extra_info s)))"

definition all_contained ::
  "nat option \<Rightarrow> ('g, 'x) scorer \<Rightarrow> (string \<times> ('g, 'x) sample file_content) list \<Rightarrow> bool" where
  "all_contained task_timeout scorer dir =
     (\<forall>(fname, c)\<in>set dir. \<forall>batch. c = Loaded batch \<longrightarrow> contained_batch task_timeout scorer batch)"

section \<open>Data for the worked instances\<close>

text \<open>A batch of two template-expanded samples, and a collaborator giving two completions each.\<close>

definition example_batch :: "(string, nat) batch_dict" where
  "example_batch =
     \<lparr>prompt = [[\<lparr>role = ''system'', content = ''be brief''\<rparr>, \<lparr>role = ''user'', content = ''1+1?''\<rparr>],
                [\<lparr>role = ''user'', content = ''2+2?''\<rparr>]],
      ground_truth = [''2'', ''4''],
      data_source = [''math'', ''math''],
      extra_info = [(''index'', [0, 1])],
      apply_chat_template = Some [True, True]\<rparr>"

definition example_chat :: "message list list \<Rightarrow> string list list" where
  "example_chat ps = map (\<lambda>p. [''<think>hm</think>first'', ''second'']) ps"

definition empty_state :: "(string, nat) runner_state" where
  "empty_state = \<lparr>results = [], files = [], chat_calls = [], console = []\<rparr>"

text \<open>
  The end-to-end instance: a shard of two batches of two samples with two responses
  each, a collaborator that gives the response \<open>first\<close> the score \<open>1.0\<close> and any other
  the score \<open>0.0\<close>, the threshold \<open>1.0\<close>, and a pool that hands the results over in the
  reverse of the task order.
\<close>

definition example_scorer :: "(string, nat) scorer" where
  "example_scorer src resp gt ei =
     Finishes 1 (Returns (Bare (if resp = ''first'' then 1 else 0)))"

definition example_config :: config where
  "example_config = \<lparr>debug = False, recalculate_rewards = False, correct_reward_threshold = 1\<rparr>"

definition example_rank_dir :: "(string \<times> (string, nat) sample file_content) list" where
  "example_rank_dir =
     files (snd (run_inference example_chat False [] [example_batch, example_batch]))"

text \<open>The first batch file of that shard, and a collaborator that raises on every call.\<close>

definition example_items :: "(string \<times> (string, nat) sample) list" where
  "example_items =
     (case map_of example_rank_dir ''batch_00000.json'' of
        Some (Loaded batch) \<Rightarrow> batch
      | _ \<Rightarrow> [])"

definition failing_scorer :: "(string, nat) scorer" where
  "failing_scorer src resp gt ei = Finishes 1 (Raises Other_exception ''division by zero'')"

chapter \<open>Properties\<close>

section \<open>Shard partitioner\<close>

lemma dp_split_formula:
  assumes "1 \<le> S" "0 \<le> r" "r < S"
  shows "dp_split T S r = (r * (T div S), if r = S - 1 then T else (r + 1) * (T div S))"
  using assms by (auto simp: dp_split_def Let_def algebra_simps)

lemma last_start_le:
  assumes "0 \<le> T" "1 \<le> S"
  shows "(S - 1) * (T div S) \<le> (T::int)"
proof -
  have "S * (T div S) \<le> T" using assms
    by (metis mult.commute div_mult_mod_eq le_add_same_cancel1 pos_mod_sign
        zero_less_one_class.zero_less_one order_less_le_trans)
  moreover have "0 \<le> T div S" using assms by (simp add: pos_imp_zdiv_nonneg_iff)
  ultimately show ?thesis by (simp add: algebra_simps)
qed

lemma shard_indices_eq:
  assumes "1 \<le> S" "0 \<le> r" "r < S"
  shows "shard_indices T S r =
     (if r = S - 1 then {r * (T div S)..<T} else {r * (T div S)..<(r + 1) * (T div S)})"
  using assms by (simp add: shard_indices_def dp_split_formula)

lemma shard_cover:
  assumes T: "0 \<le> T" and S: "1 \<le> S"
  shows "(\<Union>r\<in>{0..<S}. shard_indices T S r) = {0..<T}"
proof (intro equalityI subsetI)
  fix x assume "x \<in> (\<Union>r\<in>{0..<S}. shard_indices T S r)"
  then obtain r where r: "0 \<le> r" "r < S" and x: "x \<in> shard_indices T S r" by auto
  have q: "0 \<le> T div S" using T S by (simp add: pos_imp_zdiv_nonneg_iff)
  have lo: "0 \<le> r * (T div S)" using r q by simp
  show "x \<in> {0..<T}"
  proof (cases "r = S - 1")
    case True
    then show ?thesis using x r S lo by (simp add: shard_indices_eq)
  next
    case False
    then have "r + 1 \<le> S - 1" using r by simp
    then have "(r + 1) * (T div S) \<le> (S - 1) * (T div S)" using q by (simp add: mult_right_mono)
    also have "\<dots> \<le> T" by (rule last_start_le[OF T S])
    finally show ?thesis using x r S lo False by (simp add: shard_indices_eq)
  qed
next
  fix x assume "x \<in> {0..<T}"
  then have x: "0 \<le> x" "x < T" by auto
  define q where "q = T div S"
  have q: "0 \<le> q" using T S by (simp add: q_def pos_imp_zdiv_nonneg_iff)
  show "x \<in> (\<Union>r\<in>{0..<S}. shard_indices T S r)"
  proof (cases "x < (S - 1) * q")
    case True
    then have qpos: "0 < q" using q x S by (cases "q = 0") auto
    define r where "r = x div q"
    have r0: "0 \<le> r" using x qpos by (simp add: r_def pos_imp_zdiv_nonneg_iff)
    have below: "r * q \<le> x" using qpos
      by (simp add: r_def) (metis mult.commute div_mult_mod_eq le_add_same_cancel1 pos_mod_sign)
    have above: "x < (r + 1) * q" using qpos
      by (simp add: r_def algebra_simps)
         (metis mult.commute div_mult_mod_eq add_less_cancel_left pos_mod_bound add.commute)
    have "r < S - 1"
    proof (rule ccontr)
      assume "\<not> r < S - 1"
      then have "(S - 1) * q \<le> r * q" using q by (simp add: mult_right_mono)
      with below True show False by simp
    qed
    with below above have "x \<in> shard_indices T S r"
      using S r0 by (simp add: shard_indices_eq q_def)
    then show ?thesis using r0 \<open>r < S - 1\<close> by force
  next
    case False
    then have "x \<in> shard_indices T S (S - 1)" using S x by (simp add: shard_indices_eq q_def)
    then show ?thesis using S by force
  qed
qed

lemma shard_disjoint_lt:
  assumes T: "0 \<le> T" and S: "1 \<le> S" and r: "0 \<le> r" "r < r'" "r' < S"
  shows "shard_indices T S r \<inter> shard_indices T S r' = {}"
proof -
  have q: "0 \<le> T div S" using T S by (simp add: pos_imp_zdiv_nonneg_iff)
  have "r + 1 \<le> r'" using r by simp
  then have le: "(r + 1) * (T div S) \<le> r' * (T div S)" using q by (simp add: mult_right_mono)
  have "r \<noteq> S - 1" using r by simp
  then have "shard_indices T S r = {r * (T div S)..<(r + 1) * (T div S)}"
    using S r by (simp add: shard_indices_eq)
  moreover have "shard_indices T S r' \<subseteq> {r' * (T div S)..}"
    using S r by (auto simp: shard_indices_eq)
  ultimately show ?thesis using le by auto
qed

lemma shard_disjoint:
  assumes "0 \<le> T" "1 \<le> S" "0 \<le> r" "r < S" "0 \<le> r'" "r' < S" "r \<noteq> r'"
  shows "shard_indices T S r \<inter> shard_indices T S r' = {}"
proof (cases "r < r'")
  case True
  then show ?thesis using assms by (simp add: shard_disjoint_lt)
next
  case False
  then have "r' < r" using assms by simp
  then have "shard_indices T S r' \<inter> shard_indices T S r = {}"
    using assms by (simp add: shard_disjoint_lt)
  then show ?thesis by (simp add: Int_commute)
qed

text \<open>
  Claim C1. For a total \<open>T \<ge> 0\<close> and a shard count \<open>S \<ge> 1\<close>, every rank \<open>r\<close> in
  \<open>0..S-1\<close> gets the half-open range from \<open>r * (T div S)\<close> to \<open>(r + 1) * (T div S)\<close>, the last
  rank's range ending at \<open>T\<close> instead. The first range starts at \<open>0\<close>, each range ends where
  the next starts, the last one ends at \<open>T\<close> (contiguous); the ranges of two different ranks
  share no index; their union is exactly \<open>{0..<T}\<close>; and for \<open>S = 1\<close> the range is \<open>(0, T)\<close>.
\<close>

theorem shard_partition:
  assumes "0 \<le> T" and "1 \<le> S"
  shows "(\<forall>r. 0 \<le> r \<and> r < S \<longrightarrow>
            dp_split T S r = (r * (T div S), if r = S - 1 then T else (r + 1) * (T div S))
            \<and> fst (dp_split T S r) \<le> snd (dp_split T S r))
       \<and> fst (dp_split T S 0) = 0
       \<and> (\<forall>r. 0 \<le> r \<and> r + 1 < S \<longrightarrow> snd (dp_split T S r) = fst (dp_split T S (r + 1)))
       \<and> snd (dp_split T S (S - 1)) = T
       \<and> (\<forall>r r'. 0 \<le> r \<and> r < S \<and> 0 \<le> r' \<and> r' < S \<and> r \<noteq> r' \<longrightarrow>
            shard_indices T S r \<inter> shard_indices T S r' = {})
       \<and> (\<Union>r\<in>{0..<S}. shard_indices T S r) = {0..<T}
       \<and> (S = 1 \<longrightarrow> dp_split T S 0 = (0, T))"
proof -
  have q: "0 \<le> T div S" using assms by (simp add: pos_imp_zdiv_nonneg_iff)
  have ordered: "fst (dp_split T S r) \<le> snd (dp_split T S r)" if r: "0 \<le> r" "r < S" for r
  proof (cases "r = S - 1")
    case True
    then show ?thesis using r assms last_start_le[of T S] by (simp add: dp_split_formula)
  next
    case False
    then show ?thesis using r assms q by (simp add: dp_split_formula algebra_simps)
  qed
  have c1: "\<forall>r. 0 \<le> r \<and> r < S \<longrightarrow>
            dp_split T S r = (r * (T div S), if r = S - 1 then T else (r + 1) * (T div S))
            \<and> fst (dp_split T S r) \<le> snd (dp_split T S r)"
    using assms ordered by (simp add: dp_split_formula)
  have c2: "fst (dp_split T S 0) = 0" using assms by (simp add: dp_split_formula)
  have c3: "\<forall>r. 0 \<le> r \<and> r + 1 < S \<longrightarrow> snd (dp_split T S r) = fst (dp_split T S (r + 1))"
    using assms by (simp add: dp_split_formula)
  have c4: "snd (dp_split T S (S - 1)) = T" using assms by (simp add: dp_split_formula)
  have c5: "\<forall>r r'. 0 \<le> r \<and> r < S \<and> 0 \<le> r' \<and> r' < S \<and> r \<noteq> r' \<longrightarrow>
            shard_indices T S r \<inter> shard_indices T S r' = {}"
    using assms shard_disjoint by blast
  have c6: "(\<Union>r\<in>{0..<S}. shard_indices T S r) = {0..<T}"
    using assms by (rule shard_cover)
  have c7: "S = 1 \<longrightarrow> dp_split T S 0 = (0, T)" by (simp add: dp_split_def)
  from c1 c2 c3 c4 c5 c6 c7 show ?thesis by blast
qed

theorem shard_partition_witness:
  "dp_split 10 3 0 = (0, 3) \<and> dp_split 10 3 1 = (3, 6) \<and> dp_split 10 3 2 = (6, 10)
   \<and> shard_indices 10 3 0 \<inter> shard_indices 10 3 2 = {}
   \<and> (\<Union>r\<in>{0..<3}. shard_indices 10 3 r) = {0..<10}"
proof -
  have h: "(0::int) \<le> 10" "(1::int) \<le> 3" by simp_all
  note p = shard_partition[OF h]
  have "dp_split 10 3 0 = (0, 3)" "dp_split 10 3 1 = (3, 6)" "dp_split 10 3 2 = (6, 10)"
    using p by simp_all
  moreover have "shard_indices 10 3 0 \<inter> shard_indices 10 3 2 = {}"
    using p by simp
  moreover have "(\<Union>r\<in>{0..<3}. shard_indices 10 3 r) = {0..<10}"
    using p by blast
  ultimately show ?thesis by blast
qed

section \<open>Decimal numerals and file names\<close>

lemma digit_cases: "d < 10 \<Longrightarrow> d \<in> {0, 1, 2, 3, 4, 5, 6, 7, 8, 9::nat}"
  by auto

lemma is_digit_digit_char: "d < 10 \<Longrightarrow> is_digit (digit_char d)"
  by (drule digit_cases) (auto simp: is_digit_def digit_char_def)

lemma digit_val_digit_char: "d < 10 \<Longrightarrow> digit_val (digit_char d) = d"
  by (drule digit_cases) (auto simp: digit_val_def digit_char_def)

lemma is_digit_simps:
  "is_digit c \<Longrightarrow> c \<noteq> CHR ''_''" "is_digit c \<Longrightarrow> c \<noteq> CHR ''.''"
  "is_digit c \<Longrightarrow> c \<noteq> CHR ''-''" "is_digit c \<Longrightarrow> c \<noteq> CHR ''+''"
  "is_digit c \<Longrightarrow> \<not> is_space c"
  by (auto simp: is_digit_def is_space_def)

lemma str_nat_digits: "list_all is_digit (str_nat n) \<and> str_nat n \<noteq> []"
proof (induction n rule: str_nat.induct)
  case (1 n)
  show ?case
  proof (cases "n < 10")
    case True
    then show ?thesis by (simp add: str_nat.simps[of n] is_digit_digit_char)
  next
    case False
    then show ?thesis using 1 by (simp add: str_nat.simps[of n] is_digit_digit_char)
  qed
qed

lemma dec_value_snoc: "dec_value (s @ [c]) = 10 * dec_value s + digit_val c"
  by (simp add: dec_value_def)

lemma dec_value_str_nat: "dec_value (str_nat n) = n"
proof (induction n rule: str_nat.induct)
  case (1 n)
  show ?case
  proof (cases "n < 10")
    case True
    then show ?thesis by (simp add: str_nat.simps[of n] dec_value_def digit_val_digit_char)
  next
    case False
    then show ?thesis using 1
      by (simp add: str_nat.simps[of n] dec_value_snoc digit_val_digit_char)
  qed
qed

lemma dec_value_zeros: "dec_value (replicate k CHR ''0'' @ s) = dec_value s"
proof -
  have "foldl (\<lambda>a c. 10 * a + digit_val c) 0 (replicate k CHR ''0'') = 0"
    by (induction k) (simp_all add: digit_val_def)
  then show ?thesis by (simp add: dec_value_def)
qed

lemma digits_value_digits: "list_all is_digit s \<Longrightarrow> digits_value s = dec_value s"
proof -
  assume a: "list_all is_digit s"
  then have "filter (\<lambda>c. c \<noteq> CHR ''_'') s = s"
    by (induction s) (auto dest: is_digit_simps(1))
  then show ?thesis by (simp add: digits_value_def dec_value_def)
qed

lemma digits_ok_digits: "list_all is_digit s \<Longrightarrow> s \<noteq> [] \<Longrightarrow> digits_ok s"
  by (induction s rule: digits_ok.induct) (auto dest: is_digit_simps(1))

lemma is_digit_zero: "is_digit CHR ''0''"
  by (simp add: is_digit_def)

lemma zero_pad_digits:
  "list_all is_digit s \<Longrightarrow> s \<noteq> [] \<Longrightarrow> list_all is_digit (zero_pad w s) \<and> zero_pad w s \<noteq> []"
  by (auto simp: zero_pad_def list_all_iff is_digit_zero)

lemma length_zero_pad: "w \<le> length (zero_pad w s)"
  by (simp add: zero_pad_def)

lemma strip_id:
  assumes "s \<noteq> []" "\<not> is_space (hd s)" "\<not> is_space (last s)"
  shows "strip s = s"
proof -
  have "dropWhile is_space s = s" using assms by (simp add: dropWhile_eq_self_iff)
  moreover have "dropWhile is_space (rev s) = rev s"
    using assms by (simp add: dropWhile_eq_self_iff hd_rev)
  ultimately show ?thesis by (simp add: strip_def)
qed

lemma digits_hd_last:
  "list_all is_digit s \<Longrightarrow> s \<noteq> [] \<Longrightarrow> is_digit (hd s) \<and> is_digit (last s)"
  by (simp add: list_all_iff)

lemma py_int_digits:
  assumes "list_all is_digit s" "s \<noteq> []"
  shows "py_int s = Some (int (dec_value s))"
proof -
  have hl: "is_digit (hd s)" "is_digit (last s)" using digits_hd_last[OF assms] by simp_all
  then have st: "strip s = s" using assms by (simp add: strip_id is_digit_simps)
  obtain c r where s: "s = c # r" using assms by (cases s) auto
  then have "c \<noteq> CHR ''-''" "c \<noteq> CHR ''+''" using hl by (auto dest: is_digit_simps)
  then show ?thesis using st s digits_ok_digits[OF assms] digits_value_digits[OF assms(1)]
    by (simp add: py_int_def Let_def)
qed

lemma py_int_neg_digits:
  assumes "list_all is_digit s" "s \<noteq> []"
  shows "py_int (CHR ''-'' # s) = Some (- int (dec_value s))"
proof -
  have hl: "is_digit (last s)" using digits_hd_last[OF assms] by simp
  have "\<not> is_space CHR ''-''" by (simp add: is_space_def)
  then have st: "strip (CHR ''-'' # s) = CHR ''-'' # s" using assms hl
    by (intro strip_id) (simp_all add: is_digit_simps)
  show ?thesis
    by (simp add: py_int_def Let_def st digits_ok_digits[OF assms] digits_value_digits[OF assms(1)])
qed

lemma py_int_format_05d: "py_int (format_05d i) = Some i"
proof (cases "i < 0")
  case True
  have d: "list_all is_digit (zero_pad 4 (str_nat (nat (- i))))" "zero_pad 4 (str_nat (nat (- i))) \<noteq> []"
    using zero_pad_digits[of "str_nat (nat (- i))" 4] str_nat_digits[of "nat (- i)"] by simp_all
  show ?thesis using True
    by (simp add: format_05d_def py_int_neg_digits[OF d]) (simp add: zero_pad_def dec_value_zeros dec_value_str_nat)
next
  case False
  have d: "list_all is_digit (zero_pad 5 (str_nat (nat i)))" "zero_pad 5 (str_nat (nat i)) \<noteq> []"
    using zero_pad_digits[of "str_nat (nat i)" 5] str_nat_digits[of "nat i"] by simp_all
  show ?thesis using False
    by (simp add: format_05d_def py_int_digits[OF d]) (simp add: zero_pad_def dec_value_zeros dec_value_str_nat)
qed

lemma split_on_absent: "sep \<notin> set s \<Longrightarrow> split_on sep s = [s]"
  by (induction s) auto

lemma split_on_first: "sep \<notin> set s \<Longrightarrow> split_on sep (s @ sep # t) = s # split_on sep t"
  by (induction s) auto

lemma format_05d_chars: "c \<in> set (format_05d i) \<Longrightarrow> c = CHR ''-'' \<or> is_digit c"
proof -
  have "list_all is_digit (zero_pad w (str_nat n))" for w n
    using zero_pad_digits[of "str_nat n" w] str_nat_digits[of n] by simp
  then have "\<forall>x\<in>set (zero_pad w (str_nat n)). is_digit x" for w n
    by (simp add: list_all_iff)
  then show "c \<in> set (format_05d i) \<Longrightarrow> c = CHR ''-'' \<or> is_digit c"
    by (auto simp: format_05d_def split: if_splits)
qed

lemma format_05d_no_sep: "CHR ''_'' \<notin> set (format_05d i)" "CHR ''.'' \<notin> set (format_05d i)"
  using format_05d_chars[of "CHR ''_''" i] format_05d_chars[of "CHR ''.''" i]
  by (auto dest: is_digit_simps)

lemma parse_batch_file_name: "parse_batch_num (batch_file_name i) = Some i"
proof -
  have a: "split_on CHR ''_'' (batch_file_name i) = [''batch'', format_05d i @ ''.json'']"
    using split_on_first[of "CHR ''_''" "''batch''" "format_05d i @ ''.json''"]
      split_on_absent[of "CHR ''_''" "format_05d i @ ''.json''"] format_05d_no_sep[of i]
    by (simp add: batch_file_name_def)
  have b: "split_on CHR ''.'' (format_05d i @ ''.json'') = [format_05d i, ''json'']"
    using split_on_first[of "CHR ''.''" "format_05d i" "''json''"]
      split_on_absent[of "CHR ''.''" "''json''"] format_05d_no_sep[of i]
    by simp
  show ?thesis by (simp add: parse_batch_num_def a b py_int_format_05d)
qed

lemma length_format_05d: "5 \<le> length (format_05d i)"
  using length_zero_pad[of 4 "str_nat (nat (- i))"] length_zero_pad[of 5 "str_nat (nat i)"]
  by (simp add: format_05d_def)

lemma glob_match_batch_file_name: "glob_match (batch_file_name i)"
  using length_format_05d[of i] by (simp add: glob_match_def batch_file_name_def)

section \<open>Checkpoint resolver\<close>

lemma indexed_Nil: "indexed [] = []"
  by (simp add: indexed_def List.map_filter_simps)

lemma indexed_Cons:
  "indexed ((fname, c) # fs) =
     (case parse_batch_num fname of Some n \<Rightarrow> (n, fname, c) # indexed fs | None \<Rightarrow> indexed fs)"
  by (simp add: indexed_def List.map_filter_simps split: option.splits)

lemma name_warnings_Cons:
  "name_warnings ((fname, c) # fs) =
     (case parse_batch_num fname of Some n \<Rightarrow> name_warnings fs
      | None \<Rightarrow> Could_not_parse fname # name_warnings fs)"
  by (simp add: name_warnings_def split: option.splits)

lemma scan_names_eq: "scan_names fs acc out = (acc @ indexed fs, out @ name_warnings fs)"
proof (induction fs arbitrary: acc out)
  case Nil
  then show ?case by (simp add: indexed_Nil name_warnings_def)
next
  case (Cons f fs)
  obtain fname c where f: "f = (fname, c)" by (cases f)
  show ?case unfolding f
    by (cases "parse_batch_num fname") (simp_all add: Cons.IH indexed_Cons name_warnings_Cons)
qed































lemma cp_errors: "global_errors (fst (load_checkpoint False dir)) = []"
  by (simp add: load_checkpoint_def scan_names_eq Let_def case_prod_unfold)


























section \<open>Batch runner\<close>

lemma process_batch_untemplated:
  "\<not> all_templated batch \<Longrightarrow>
   process_batch chat st idx batch =
     (Some Chat_template_error, st\<lparr>console := console st @ [Generating idx]\<rparr>)"
  by (simp add: process_batch_def)

lemma all_templated_False:
  "apply_chat_template batch = Some col \<Longrightarrow> False \<in> set col \<Longrightarrow> \<not> all_templated batch"
  by (auto simp: all_templated_def list_all_iff)

lemma main_loop_append:
  "main_loop chat st idx (pre @ post) =
     (case main_loop chat st idx pre of
        (Some e, st') \<Rightarrow> (Some e, st')
      | (None, st') \<Rightarrow> main_loop chat st' (idx + int (length pre)) post)"
proof (induction pre arbitrary: st idx)
  case Nil
  then show ?case by simp
next
  case (Cons b pre)
  obtain e st1 where p: "process_batch chat st idx b = (e, st1)" by (cases "process_batch chat st idx b")
  show ?case
  proof (cases e)
    case None
    have "idx + 1 + int (length pre) = idx + int (length (b # pre))" by simp
    then show ?thesis using None p Cons.IH[of st1 "idx + 1"] by (simp only: append_Cons main_loop.simps) simp
  next
    case (Some err)
    then show ?thesis using p by simp
  qed
qed

lemma main_loop_stops:
  assumes "main_loop chat st idx pre = (None, st')" "\<not> all_templated batch"
  shows "main_loop chat st idx (pre @ batch # post) =
     (Some Chat_template_error,
      st'\<lparr>console := console st' @ [Generating (idx + int (length pre))]\<rparr>)"
  using assms by (simp add: main_loop_append process_batch_untemplated)


lemma skip_completed_drop:
  "n \<le> length it \<Longrightarrow> skip_completed n it = (drop n it, False)"
  by (induction n it rule: skip_completed.induct) simp_all












text \<open>
  Claim C5. When the batch the main loop takes up has a sample whose
  \<^verbatim>\<open>apply_chat_template\<close> is false, the loop body ends with the runner's
  \<^verbatim>\<open>RuntimeError\<close> at once: apart from the console line that announces the batch the state
  is the one before the batch, so the generation collaborator has not been called for it
  and no file has been written for it. Nothing catches the error: the loop ends with it
  after the batches before it, the batches after it are never taken up, and the run
  returns it.
\<close>

theorem untemplated_batch_is_fatal:
  assumes "apply_chat_template batch = Some col" and "False \<in> set col"
  shows "process_batch chat st idx batch =
           (Some Chat_template_error, st\<lparr>console := console st @ [Generating idx]\<rparr>)
       \<and> chat_calls (snd (process_batch chat st idx batch)) = chat_calls st
       \<and> files (snd (process_batch chat st idx batch)) = files st
       \<and> results (snd (process_batch chat st idx batch)) = results st
       \<and> (main_loop chat st idx pre = (None, st') \<longrightarrow>
            main_loop chat st idx (pre @ batch # post) =
              (Some Chat_template_error,
               st'\<lparr>console := console st' @ [Generating (idx + int (length pre))]\<rparr>))
       \<and> (skip_completed (nat start) batches = (pre @ batch # post, False)
            \<and> main_loop chat st start pre = (None, st') \<longrightarrow>
            run_batches chat start batches st =
              (Some Chat_template_error,
               st'\<lparr>console := console st' @ [Generating (start + int (length pre))]\<rparr>))"
proof -
  have u: "\<not> all_templated batch" using assms by (rule all_templated_False)
  have a: "process_batch chat st idx batch =
           (Some Chat_template_error, st\<lparr>console := console st @ [Generating idx]\<rparr>)"
    using u by (rule process_batch_untemplated)
  have b: "main_loop chat st idx pre = (None, st') \<longrightarrow>
            main_loop chat st idx (pre @ batch # post) =
              (Some Chat_template_error,
               st'\<lparr>console := console st' @ [Generating (idx + int (length pre))]\<rparr>)"
    using u by (simp add: main_loop_stops)
  have c: "skip_completed (nat start) batches = (pre @ batch # post, False)
            \<and> main_loop chat st start pre = (None, st') \<longrightarrow>
            run_batches chat start batches st =
              (Some Chat_template_error,
               st'\<lparr>console := console st' @ [Generating (start + int (length pre))]\<rparr>)"
    using u by (simp add: run_batches_def main_loop_stops)
  from a b c show ?thesis by simp
qed

theorem untemplated_batch_is_fatal_witness:
  "process_batch example_chat empty_state 5 (example_batch\<lparr>apply_chat_template := Some [True, False]\<rparr>) =
     (Some Chat_template_error, empty_state\<lparr>console := [Generating 5]\<rparr>)
   \<and> run_batches example_chat 0
        [example_batch, example_batch\<lparr>apply_chat_template := Some [True, False]\<rparr>, example_batch]
        empty_state =
     (Some Chat_template_error,
      (snd (main_loop example_chat empty_state 0 [example_batch]))
        \<lparr>console := console (snd (main_loop example_chat empty_state 0 [example_batch])) @ [Generating 1]\<rparr>)
   \<and> map fst (files (snd (main_loop example_chat empty_state 0 [example_batch]))) = [''batch_00000.json'']
   \<and> chat_calls (snd (main_loop example_chat empty_state 0 [example_batch])) = [prompt example_batch]"
proof -
  let ?bad = "example_batch\<lparr>apply_chat_template := Some [True, False]\<rparr>"
  let ?m = "main_loop example_chat empty_state 0 [example_batch]"
  have h1: "apply_chat_template ?bad = Some [True, False]" by simp
  have h2: "False \<in> set [True, False]" by simp
  have f: "fst ?m = None" by code_simp
  have m: "?m = (None, snd ?m)" using f by (simp add: prod_eq_iff)
  have s: "skip_completed (nat 0) [example_batch, ?bad, example_batch]
             = ([example_batch] @ ?bad # [example_batch], False)"
    by simp
  note t = untemplated_batch_is_fatal[OF h1 h2, where chat = example_chat and st = empty_state]
  have "process_batch example_chat empty_state 5 ?bad =
     (Some Chat_template_error, empty_state\<lparr>console := [Generating 5]\<rparr>)"
    using t[where idx = 5, THEN conjunct1] by (simp add: empty_state_def)
  moreover have "run_batches example_chat 0 [example_batch, ?bad, example_batch] empty_state =
     (Some Chat_template_error, (snd ?m)\<lparr>console := console (snd ?m) @ [Generating 1]\<rparr>)"
    using t[where pre = "[example_batch]" and st' = "snd ?m" and post = "[example_batch]"
          and start = 0 and batches = "[example_batch, ?bad, example_batch]",
        THEN conjunct2, THEN conjunct2, THEN conjunct2, THEN conjunct2, THEN conjunct2] s m
    by simp
  moreover have "map fst (files (snd ?m)) = [''batch_00000.json'']" by code_simp
  moreover have "chat_calls (snd ?m) = [prompt example_batch]" by code_simp
  ultimately show ?thesis by (intro conjI)
qed

section \<open>Scoring tasks and the aggregator\<close>

lemma handle_final_gid:
  "handle_final T gid f = Result r \<Longrightarrow> fst r = gid \<and> handle_final T g' f = Result (g', snd r)"
  by (induction T gid f rule: handle_final.induct) auto

lemma compute_gid:
  assumes "compute_single_reward T gid run = Result r"
  shows "fst r = gid" and "compute_single_reward T g' run = Result (g', snd r)"
  using assms
  by (auto simp: compute_single_reward_def split: option.splits scorer_run.splits if_splits
      dest: handle_final_gid)

lemma compute_detail:
  assumes "compute_single_reward T gid run = Result r"
  shows "r = (gid, the (task_detail T run))"
proof -
  have "compute_single_reward T 0 run = Result (0, snd r)" using assms by (rule compute_gid(2))
  then have "task_detail T run = Some (snd r)" by (simp add: task_detail_def)
  then show ?thesis using compute_gid(1)[OF assms] by (simp add: prod_eq_iff)
qed

lemma run_tasks_computed:
  "run_tasks T sc tasks = Inr computed \<Longrightarrow>
   computed = map (\<lambda>t. (fst t, payload_detail T sc (snd t))) tasks"
proof (induction tasks arbitrary: computed)
  case Nil
  then show ?case by simp
next
  case (Cons t tasks)
  obtain gid resp src gt ei where t: "t = (gid, resp, src, gt, ei)" by (cases t)
  from Cons.prems obtain r rs where
    r: "compute_single_reward T gid (sc src resp gt ei) = Result r"
    and rs: "run_tasks T sc tasks = Inr rs" and c: "computed = r # rs"
    by (auto simp: t bind_err_def split: outcome.splits sum.splits)
  have "r = (gid, payload_detail T sc (resp, src, gt, ei))"
    using compute_detail[OF r] by (simp add: payload_detail_def)
  then show ?case using Cons.IH[OF rs] by (simp add: c t)
qed

lemma sample_tasks_fst: "map fst (sample_tasks gid s rs) = [gid..<gid + length rs]"
  by (induction rs arbitrary: gid) (simp_all add: upt_rec)

lemma sample_tasks_snd: "map snd (sample_tasks gid s rs) = map (sample_payload s) rs"
  by (induction rs arbitrary: gid) (simp_all add: sample_payload_def)

lemma build_tasks_gids:
  "build_tasks recalc bn items gid rr = (tasks, lookup, rr') \<Longrightarrow>
   map fst tasks = [gid..<gid + length tasks] \<and> map fst lookup = map fst tasks
   \<and> snd ` set lookup \<subseteq> fst ` set items"
proof (induction items arbitrary: gid rr tasks lookup rr')
  case Nil
  then show ?case by simp
next
  case (Cons x items)
  obtain k s where x: "x = (k, s)" by (cases x)
  show ?case
  proof (cases "\<not> recalc \<and> has_scores s")
    case True
    then have "build_tasks recalc bn items gid (AList.update (rank_key bn k) s rr) = (tasks, lookup, rr')"
      using Cons.prems by (simp add: x)
    from Cons.IH[OF this] show ?thesis by auto
  next
    case False
    obtain ts' lk' rr2 where
      b: "build_tasks recalc bn items (gid + length (responses s)) rr = (ts', lk', rr2)"
      by (cases "build_tasks recalc bn items (gid + length (responses s)) rr") auto
    have tasks: "tasks = sample_tasks gid s (responses s) @ ts'"
      and lookup: "lookup = map (\<lambda>t. (fst t, k)) (sample_tasks gid s (responses s)) @ lk'"
      using Cons.prems False b by (auto simp: x Let_def)
    note ih = Cons.IH[OF b]
    have l: "length (sample_tasks gid s (responses s)) = length (responses s)"
      using arg_cong[OF sample_tasks_fst[of gid s "responses s"], of length] by simp
    have "map fst tasks = [gid..<gid + length (responses s)] @ [gid + length (responses s)..<gid + length (responses s) + length ts']"
      using ih by (simp add: tasks sample_tasks_fst)
    also have "\<dots> = [gid..<gid + length tasks]"
      using upt_add_eq_append[of gid "gid + length (responses s)" "length ts'"]
      by (simp add: tasks l add.assoc)
    finally have a: "map fst tasks = [gid..<gid + length tasks]" .
    have b': "map fst lookup = map fst tasks" using ih by (simp add: tasks lookup comp_def)
    have c: "snd ` set lookup \<subseteq> fst ` set (x # items)" using ih by (auto simp: lookup x)
    from a b' c show ?thesis by blast
  qed
qed

lemma map_of_append_notin:
  "g \<notin> fst ` set xs \<Longrightarrow> map_of (xs @ ys) g = map_of ys g"
  by (induction xs) auto

lemma build_tasks_owned:
  assumes "build_tasks recalc bn items gid rr = (tasks, lookup, rr')"
    and "distinct (map fst items)"
  shows "map snd (filter (\<lambda>t. owned lookup k (fst t)) tasks) =
     (case map_of (to_score recalc items) k of
        None \<Rightarrow> []
      | Some s \<Rightarrow> map (sample_payload s) (responses s))"
  using assms
proof (induction items arbitrary: gid rr tasks lookup rr')
  case Nil
  then show ?case by (simp add: to_score_def)
next
  case (Cons x items)
  obtain k0 s where x: "x = (k0, s)" by (cases x)
  have d: "distinct (map fst items)" and k0: "k0 \<notin> fst ` set items"
    using Cons.prems(2) by (simp_all add: x)
  show ?case
  proof (cases "\<not> recalc \<and> has_scores s")
    case True
    then have b: "build_tasks recalc bn items gid (AList.update (rank_key bn k0) s rr) = (tasks, lookup, rr')"
      using Cons.prems by (simp add: x)
    have own: "snd ` set lookup \<subseteq> fst ` set items" using build_tasks_gids[OF b] by simp
    have ts: "to_score recalc (x # items) = to_score recalc items"
      using True by (simp add: to_score_def x)
    show ?thesis using Cons.IH[OF b d] by (simp add: ts)
  next
    case False
    obtain ts' lk' rr2 where
      b: "build_tasks recalc bn items (gid + length (responses s)) rr = (ts', lk', rr2)"
      by (cases "build_tasks recalc bn items (gid + length (responses s)) rr") auto
    let ?ts = "sample_tasks gid s (responses s)"
    let ?lk = "map (\<lambda>t. (fst t, k0)) ?ts"
    have tasks: "tasks = ?ts @ ts'" and lookup: "lookup = ?lk @ lk'"
      using Cons.prems False b by (auto simp: x Let_def)
    note g = build_tasks_gids[OF b]
    have "map fst ?lk = [gid..<gid + length (responses s)]"
      by (simp add: comp_def sample_tasks_fst)
    then have "set (map fst ?lk) = {gid..<gid + length (responses s)}" by simp
    then have dom: "fst ` set ?lk = {gid..<gid + length (responses s)}" by (simp only: set_map)
    have fts: "fst ` set ?ts = {gid..<gid + length (responses s)}"
      using arg_cong[OF sample_tasks_fst[of gid s "responses s"], of set] by simp
    have own1: "owned lookup k (fst t) = (k = k0)" if "t \<in> set ?ts" for t
    proof -
      have "map_of ?lk (fst t) = Some k0" using that
        by (intro map_of_is_SomeI) (auto simp: comp_def sample_tasks_fst)
      then show ?thesis by (auto simp: owned_def lookup)
    qed
    have own2: "owned lookup k (fst t) = owned lk' k (fst t)" if "t \<in> set ts'" for t
    proof -
      have "fst t \<in> set (map fst ts')" using that by simp
      then have "gid + length (responses s) \<le> fst t" using g by simp
      then have "fst t \<notin> fst ` set ?lk" by (simp only: dom) simp
      then have "map_of (?lk @ lk') (fst t) = map_of lk' (fst t)" by (rule map_of_append_notin)
      then show ?thesis by (simp only: owned_def lookup)
    qed
    have f1: "filter (\<lambda>t. owned lookup k (fst t)) ?ts = (if k = k0 then ?ts else [])"
      using own1 by (auto simp: filter_empty_conv intro: filter_True)
    have f2: "filter (\<lambda>t. owned lookup k (fst t)) ts' = filter (\<lambda>t. owned lk' k (fst t)) ts'"
      using own2 by (auto intro: filter_cong)
    have ih: "map snd (filter (\<lambda>t. owned lk' k (fst t)) ts') =
        (case map_of (to_score recalc items) k of None \<Rightarrow> []
         | Some s \<Rightarrow> map (sample_payload s) (responses s))"
      by (rule Cons.IH[OF b d])
    have ts: "to_score recalc (x # items) = (k0, s) # to_score recalc items"
      using False by (auto simp: to_score_def x)
    have none: "map_of (to_score recalc items) k0 = None"
      using k0 by (auto simp: to_score_def map_of_eq_None_iff)
    have comb: "map snd (filter (\<lambda>t. owned lookup k (fst t)) tasks) =
        (if k = k0 then map (sample_payload s) (responses s) else [])
        @ (case map_of (to_score recalc items) k of None \<Rightarrow> []
           | Some s \<Rightarrow> map (sample_payload s) (responses s))"
      by (simp only: tasks filter_append map_append f1 f2 ih) (simp add: sample_tasks_snd)
    show ?thesis
    proof (cases "k = k0")
      case True
      show ?thesis using none comb unfolding True by (simp add: ts)
    next
      case False
      then show ?thesis by (simp add: comb ts)
    qed
  qed
qed

lemma map_of_update_alist:
  "map_of (AList.update k v al) k' = (if k' = k then Some v else map_of al k')"
  by (simp add: update_conv')

lemma group_results_closed:
  "group_results lookup arrived acc = Inr by_sample \<Longrightarrow>
   map_of by_sample k =
     (case map_of acc k of
        None \<Rightarrow> if arrived_for lookup k arrived = [] then None
                 else Some (arrived_for lookup k arrived)
      | Some ds0 \<Rightarrow> Some (ds0 @ arrived_for lookup k arrived))"
proof (induction arrived arbitrary: acc)
  case Nil
  then show ?case by (simp add: arrived_for_def split: option.splits)
next
  case (Cons r arrived)
  obtain g d where r: "r = (g, d)" by (cases r)
  from Cons.prems obtain s_idx where
    l: "map_of lookup g = Some s_idx"
    and rest: "group_results lookup arrived
        (AList.update s_idx ((case map_of acc s_idx of None \<Rightarrow> [] | Some ds \<Rightarrow> ds) @ [d]) acc) = Inr by_sample"
    by (auto simp: r split: option.splits)
  note ih = Cons.IH[OF rest]
  show ?case
  proof (cases "k = s_idx")
    case True
    then have e: "arrived_for lookup k (r # arrived) = d # arrived_for lookup k arrived"
      using l by (simp add: arrived_for_def owned_def r)
    show ?thesis using ih e unfolding True by (simp add: map_of_update_alist split: option.splits)
  next
    case False
    then have e: "arrived_for lookup k (r # arrived) = arrived_for lookup k arrived"
      using l by (simp add: arrived_for_def owned_def r)
    show ?thesis using ih False by (simp add: e map_of_update_alist split: option.splits)
  qed
qed

lemma update_samples_keys:
  "update_samples thr bn by_sample items rr = Inr (items', rr') \<Longrightarrow> map fst items' = map fst items"
proof (induction items arbitrary: rr items' rr')
  case Nil
  then show ?case by simp
next
  case (Cons x items)
  obtain k0 s0 where x: "x = (k0, s0)" by (cases x)
  from Cons.prems obtain s1 it2 rr1 where
    "update_samples thr bn by_sample items rr1 = Inr (it2, rr')" and "items' = (k0, s1) # it2"
    by (auto simp: x bind_err_def split: option.splits sum.splits prod.splits)
  then show ?case using Cons.IH by (simp add: x)
qed

lemma update_samples_closed:
  assumes "update_samples thr bn by_sample items rr = Inr (items', rr')"
    and "distinct (map fst items)" and "(k, s) \<in> set items"
  shows "case map_of by_sample k of
            None \<Rightarrow> map_of items' k = Some s
          | Some dl \<Rightarrow> \<exists>s'. scored_sample thr dl s = Inr s' \<and> map_of items' k = Some s'"
  using assms
proof (induction items arbitrary: rr items' rr')
  case Nil
  then show ?case by simp
next
  case (Cons x items)
  obtain k0 s0 where x: "x = (k0, s0)" by (cases x)
  have d: "distinct (map fst items)" and k0: "k0 \<notin> fst ` set items"
    using Cons.prems(2) by (simp_all add: x)
  have same: "s = s0" if "k = k0"
    using Cons.prems(3) k0 that by (force simp: x)
  show ?case
  proof (cases "map_of by_sample k0")
    case None
    from Cons.prems(1) obtain it2 where
      u: "update_samples thr bn by_sample items rr = Inr (it2, rr')"
      and i: "items' = (k0, s0) # it2"
      by (auto simp: x None bind_err_def split: sum.splits prod.splits)
    show ?thesis
    proof (cases "k = k0")
      case True
      then show ?thesis using same None by (simp add: i)
    next
      case False
      then have "(k, s) \<in> set items" using Cons.prems(3) by (simp add: x)
      from Cons.IH[OF u d this] show ?thesis using False by (simp add: i split: option.splits)
    qed
  next
    case (Some dl)
    from Cons.prems(1) obtain s0' it2 where
      sc: "scored_sample thr dl s0 = Inr s0'"
      and u: "update_samples thr bn by_sample items (AList.update (rank_key bn k0) s0' rr) = Inr (it2, rr')"
      and i: "items' = (k0, s0') # it2"
      by (auto simp: x Some bind_err_def split: sum.splits prod.splits)
    show ?thesis
    proof (cases "k = k0")
      case True
      then show ?thesis using same Some sc by (simp add: i)
    next
      case False
      then have "(k, s) \<in> set items" using Cons.prems(3) by (simp add: x)
      from Cons.IH[OF u d this] show ?thesis using False by (simp add: i split: option.splits)
    qed
  qed
qed

lemma map_err_length: "map_err f xs = Inr ys \<Longrightarrow> length ys = length xs"
proof (induction xs arbitrary: ys)
  case Nil
  then show ?case by simp
next
  case (Cons x xs)
  then show ?case by (auto simp: bind_err_def split: sum.splits)
qed

lemma map_err_map: "map_err f xs = Inr ys \<Longrightarrow> map Inr ys = map f xs"
proof (induction xs arbitrary: ys)
  case Nil
  then show ?case by simp
next
  case (Cons x xs)
  then show ?case by (auto simp: bind_err_def split: sum.splits)
qed

lemma meets_passes: "map_err (meets thr) scs = Inr passed \<Longrightarrow> passed = map (passes thr) scs"
proof (induction scs arbitrary: passed)
  case Nil
  then show ?case by simp
next
  case (Cons v scs)
  then show ?case
    by (auto simp: bind_err_def meets_def passes_def split: sum.splits jvalue.splits)
qed

lemma scored_sample_fields:
  assumes "scored_sample thr dl s = Inr s'"
  shows "\<exists>scs. map_err score_of dl = Inr scs \<and> length scs = length dl
           \<and> s' = s\<lparr>detailed_scores := Some dl, scores := Some scs,
                    pass_rate := Some (if scs \<noteq> []
                                       then real (length (filter (passes thr) scs)) / real (length scs)
                                       else 0)\<rparr>"
proof -
  from assms obtain scs passed where
    a: "map_err score_of dl = Inr scs" and b: "map_err (meets thr) scs = Inr passed"
    and c: "s' = s\<lparr>detailed_scores := Some dl, scores := Some scs,
                  pass_rate := Some (if scs \<noteq> []
                                     then real (length (filter (\<lambda>p. p) passed)) / real (length scs)
                                     else 0)\<rparr>"
    by (auto simp: scored_sample_def bind_err_def split: sum.splits)
  have "passed = map (passes thr) scs" using b by (rule meets_passes)
  then have "length (filter (\<lambda>p. p) passed) = length (filter (passes thr) scs)"
    by (simp add: filter_map comp_def)
  then show ?thesis using a c map_err_length[OF a] by simp
qed

lemma to_score_lookup:
  assumes "distinct (map fst items)" "(k, s) \<in> set items"
  shows "map_of (to_score recalc items) k = (if recalc \<or> \<not> has_scores s then Some s else None)"
proof -
  have d: "distinct (map fst (to_score recalc items))"
    using assms(1) by (simp add: to_score_def distinct_map_filter)
  show ?thesis
  proof (cases "recalc \<or> \<not> has_scores s")
    case True
    then have "(k, s) \<in> set (to_score recalc items)" using assms(2) by (auto simp: to_score_def)
    then show ?thesis using d True by simp
  next
    case False
    have "k \<notin> fst ` set (to_score recalc items)"
    proof
      assume "k \<in> fst ` set (to_score recalc items)"
      then obtain s2 where m: "(k, s2) \<in> set items" and t: "recalc \<or> \<not> has_scores s2"
        by (auto simp: to_score_def)
      have "s2 = s" using assms m by (meson eq_key_imp_eq_value)
      then show False using t False by simp
    qed
    then show ?thesis using False by (simp add: map_of_eq_None_iff)
  qed
qed

lemma arrived_for_computed:
  assumes "build_tasks recalc bn items 0 rr = (tasks, lookup, rr1)"
    and "distinct (map fst items)" and "(k, s) \<in> set items"
    and "run_tasks T sc tasks = Inr computed"
  shows "arrived_for lookup k computed =
     (if recalc \<or> \<not> has_scores s then map (response_detail T sc s) (responses s) else [])"
proof -
  have c: "computed = map (\<lambda>t. (fst t, payload_detail T sc (snd t))) tasks"
    using assms(4) by (rule run_tasks_computed)
  have "arrived_for lookup k computed =
        map (payload_detail T sc) (map snd (filter (\<lambda>t. owned lookup k (fst t)) tasks))"
    by (simp add: arrived_for_def c filter_map comp_def)
  also have "\<dots> = map (payload_detail T sc)
      (case map_of (to_score recalc items) k of None \<Rightarrow> []
       | Some s \<Rightarrow> map (sample_payload s) (responses s))"
    by (simp only: build_tasks_owned[OF assms(1,2)])
  finally show ?thesis
    by (simp add: to_score_lookup[OF assms(2,3)] response_detail_def comp_def)
qed

lemma arrived_for_mset:
  "mset arrived = mset computed \<Longrightarrow>
   mset (arrived_for lookup k arrived) = mset (arrived_for lookup k computed)"
  by (simp add: arrived_for_def)

lemma score_batch_sample:
  assumes R: "score_batch cfg T sc pool bn batch rr = Inr (batch', rr', n)"
    and D: "distinct (map fst batch)"
    and P: "\<forall>deliver xs. pool = Some deliver \<longrightarrow> mset (deliver xs) = mset xs"
    and M: "(k, s) \<in> set batch"
  shows "if (recalculate_rewards cfg \<or> \<not> has_scores s) \<and> responses s \<noteq> []
         then \<exists>dl s'. scored_sample (correct_reward_threshold cfg) dl s = Inr s'
                \<and> map_of batch' k = Some s'
                \<and> mset dl = mset (map (response_detail T sc s) (responses s))
                \<and> (pool = None \<longrightarrow> dl = map (response_detail T sc s) (responses s))
         else map_of batch' k = Some s"
proof -
  let ?recalc = "recalculate_rewards cfg"
  let ?want = "if ?recalc \<or> \<not> has_scores s then map (response_detail T sc s) (responses s) else []"
  obtain tasks lookup rr1 where b: "build_tasks ?recalc bn batch 0 rr = (tasks, lookup, rr1)"
    by (cases "build_tasks ?recalc bn batch 0 rr") auto
  have orig: "map_of batch k = Some s" using D M by simp
  show ?thesis
  proof (cases "tasks = []")
    case True
    then have same: "batch' = batch" using R b by (simp add: score_batch_def)
    have "run_tasks T sc tasks = Inr []" using True by simp
    from arrived_for_computed[OF b D M this] have "?want = []" by (simp add: arrived_for_def)
    then show ?thesis using orig same by (auto split: if_splits)
  next
    case False
    let ?arr = "\<lambda>computed. case pool of None \<Rightarrow> computed | Some deliver \<Rightarrow> deliver computed"
    from R b False obtain computed by_sample where
      c: "run_tasks T sc tasks = Inr computed"
      and g: "group_results lookup (?arr computed) [] = Inr by_sample"
      and u: "update_samples (correct_reward_threshold cfg) bn by_sample batch rr1 = Inr (batch', rr')"
      by (auto simp: score_batch_def bind_err_def split: sum.splits prod.splits)
    let ?dl = "arrived_for lookup k (?arr computed)"
    have seq: "arrived_for lookup k computed = ?want" by (rule arrived_for_computed[OF b D M c])
    have "mset (?arr computed) = mset computed" using P by (cases pool) auto
    then have ms: "mset ?dl = mset ?want" using arrived_for_mset[of "?arr computed" computed lookup k] seq by simp
    have eq: "pool = None \<longrightarrow> ?dl = ?want" using seq by simp
    have bs: "map_of by_sample k = (if ?dl = [] then None else Some ?dl)"
      using group_results_closed[OF g, of k] by simp
    note uc = update_samples_closed[OF u D M]
    show ?thesis
    proof (cases "(?recalc \<or> \<not> has_scores s) \<and> responses s \<noteq> []")
      case True
      then have "?want \<noteq> []" by simp
      then have "mset ?dl \<noteq> {#}" using ms by simp
      then have ne: "?dl \<noteq> []" by auto
      then obtain s' where "scored_sample (correct_reward_threshold cfg) ?dl s = Inr s'"
        and "map_of batch' k = Some s'" using uc bs by auto
      then show ?thesis using True ms eq by auto
    next
      case False
      then have "?want = []" by auto
      then have "?dl = []" using ms by simp
      then show ?thesis using uc bs False by auto
    qed
  qed
qed

lemma contained_result:
  "contained T run \<Longrightarrow> compute_single_reward T gid run = Result (gid, the (task_detail T run))
     \<and> numeric_score (the (task_detail T run))"
proof -
  assume c: "contained T run"
  then obtain d where d: "task_detail T run = Some d" and n: "numeric_score d"
    by (auto simp: contained_def split: option.splits)
  then obtain r where "compute_single_reward T 0 run = Result r" and "snd r = d"
    by (auto simp: task_detail_def split: outcome.splits)
  then have "compute_single_reward T gid run = Result (gid, d)"
    using compute_gid(2)[of T 0 run r gid] by simp
  then show ?thesis using d n by simp
qed

lemma build_tasks_payloads:
  "build_tasks recalc bn items gid rr = (tasks, lookup, rr') \<Longrightarrow>
   set (map snd tasks) \<subseteq> (\<Union>(k, s)\<in>set items. sample_payload s ` set (responses s))"
proof (induction items arbitrary: gid rr tasks lookup rr')
  case Nil
  then show ?case by simp
next
  case (Cons x items)
  obtain k s where x: "x = (k, s)" by (cases x)
  show ?case
  proof (cases "\<not> recalc \<and> has_scores s")
    case True
    then have "build_tasks recalc bn items gid (AList.update (rank_key bn k) s rr) = (tasks, lookup, rr')"
      using Cons.prems by (simp add: x)
    from Cons.IH[OF this] show ?thesis by auto
  next
    case False
    obtain ts' lk' rr2 where
      b: "build_tasks recalc bn items (gid + length (responses s)) rr = (ts', lk', rr2)"
      by (cases "build_tasks recalc bn items (gid + length (responses s)) rr") auto
    have tasks: "tasks = sample_tasks gid s (responses s) @ ts'"
      using Cons.prems False b by (auto simp: x Let_def)
    have "set (map snd (sample_tasks gid s (responses s))) = sample_payload s ` set (responses s)"
      by (simp only: sample_tasks_snd set_map)
    then show ?thesis using Cons.IH[OF b] by (auto simp: tasks x simp del: set_map)
  qed
qed

lemma run_tasks_total:
  assumes "\<forall>t\<in>set tasks. case snd t of (resp, src, gt, ei) \<Rightarrow> contained T (sc src resp gt ei)"
  shows "\<exists>computed. run_tasks T sc tasks = Inr computed"
  using assms
proof (induction tasks)
  case Nil
  then show ?case by simp
next
  case (Cons t tasks)
  obtain gid resp src gt ei where t: "t = (gid, resp, src, gt, ei)" by (cases t)
  have "contained T (sc src resp gt ei)" using Cons.prems by (simp add: t)
  then have "compute_single_reward T gid (sc src resp gt ei)
      = Result (gid, the (task_detail T (sc src resp gt ei)))"
    by (simp add: contained_result)
  moreover obtain rs where "run_tasks T sc tasks = Inr rs" using Cons by auto
  ultimately show ?case by (simp add: t bind_err_def)
qed

lemma group_results_total:
  "\<forall>r\<in>set arrived. fst r \<in> fst ` set lookup \<Longrightarrow>
   \<exists>by_sample. group_results lookup arrived acc = Inr by_sample"
proof (induction arrived arbitrary: acc)
  case Nil
  then show ?case by simp
next
  case (Cons r arrived)
  obtain g d where r: "r = (g, d)" by (cases r)
  have "g \<in> fst ` set lookup" using Cons.prems by (simp add: r)
  then obtain k where "map_of lookup g = Some k"
    by (metis domD dom_map_of_conv_image_fst)
  then show ?case using Cons by (simp add: r)
qed

lemma map_err_total: "\<forall>x\<in>set xs. \<exists>y. f x = Inr y \<Longrightarrow> \<exists>ys. map_err f xs = Inr ys"
  by (induction xs) (auto simp: bind_err_def)

lemma scored_sample_total:
  assumes "\<forall>d\<in>set dl. numeric_score d"
  shows "\<exists>s'. scored_sample thr dl s = Inr s'"
proof -
  have "\<forall>d\<in>set dl. \<exists>v. score_of d = Inr v" using assms
    by (auto simp: numeric_score_def score_of_def split: option.splits)
  then obtain scs where scs: "map_err score_of dl = Inr scs" using map_err_total by blast
  have "\<forall>v\<in>set scs. \<exists>x. v = Num x"
  proof
    fix v assume "v \<in> set scs"
    then have "Inr v \<in> set (map score_of dl)" using map_err_map[OF scs] by (metis imageI set_map)
    then obtain d where d: "d \<in> set dl" "score_of d = Inr v" by auto
    then have "numeric_score d" using assms by blast
    then show "\<exists>x. v = Num x" using d(2)
      by (cases v) (auto simp: numeric_score_def score_of_def split: option.splits)
  qed
  then have "\<forall>v\<in>set scs. \<exists>p. meets thr v = Inr p" by (auto simp: meets_def)
  then obtain ps where "map_err (meets thr) scs = Inr ps" using map_err_total by blast
  then show ?thesis using scs by (simp add: scored_sample_def bind_err_def)
qed

lemma update_samples_total:
  assumes "\<forall>k dl. map_of by_sample k = Some dl \<longrightarrow> (\<forall>d\<in>set dl. numeric_score d)"
  shows "\<exists>r. update_samples thr bn by_sample items rr = Inr r"
proof (induction items arbitrary: rr)
  case Nil
  then show ?case by simp
next
  case (Cons x items)
  obtain k s where x: "x = (k, s)" by (cases x)
  show ?case
  proof (cases "map_of by_sample k")
    case None
    obtain r where "update_samples thr bn by_sample items rr = Inr r" using Cons by blast
    then show ?thesis by (cases r) (simp add: x None bind_err_def)
  next
    case (Some dl)
    then have "\<forall>d\<in>set dl. numeric_score d" using assms by blast
    then obtain s' where s': "scored_sample thr dl s = Inr s'" using scored_sample_total by blast
    obtain r where "update_samples thr bn by_sample items (AList.update (rank_key bn k) s' rr) = Inr r"
      using Cons by blast
    then show ?thesis using s' by (cases r) (simp add: x Some bind_err_def)
  qed
qed

lemma score_batch_total:
  assumes C: "\<forall>(k, s)\<in>set batch. \<forall>raw\<in>set (responses s).
       contained T (sc (source s) (strip_reasoning raw) (sample_ground_truth s) (sample_extra_info s))"
    and P: "\<forall>deliver xs. pool = Some deliver \<longrightarrow> mset (deliver xs) = mset xs"
  shows "\<exists>r. score_batch cfg T sc pool bn batch rr = Inr r"
proof -
  let ?recalc = "recalculate_rewards cfg"
  obtain tasks lookup rr1 where b: "build_tasks ?recalc bn batch 0 rr = (tasks, lookup, rr1)"
    by (cases "build_tasks ?recalc bn batch 0 rr") auto
  show ?thesis
  proof (cases "tasks = []")
    case True
    then show ?thesis using b by (simp add: score_batch_def)
  next
    case False
    let ?arr = "\<lambda>computed. case pool of None \<Rightarrow> computed | Some deliver \<Rightarrow> deliver computed"
    have pay: "\<forall>t\<in>set tasks. case snd t of (resp, src, gt, ei) \<Rightarrow> contained T (sc src resp gt ei)"
    proof
      fix t assume "t \<in> set tasks"
      then have "snd t \<in> set (map snd tasks)" by simp
      then obtain k s raw where "(k, s) \<in> set batch" "raw \<in> set (responses s)"
        "snd t = sample_payload s raw"
        using build_tasks_payloads[OF b] by blast
      then show "case snd t of (resp, src, gt, ei) \<Rightarrow> contained T (sc src resp gt ei)"
        using C by (auto simp: sample_payload_def)
    qed
    then obtain computed where c: "run_tasks T sc tasks = Inr computed"
      using run_tasks_total by blast
    have cm: "computed = map (\<lambda>t. (fst t, payload_detail T sc (snd t))) tasks"
      using c by (rule run_tasks_computed)
    have ms: "mset (?arr computed) = mset computed" using P by (cases pool) auto
    then have st: "set (?arr computed) = set computed" by (rule mset_eq_setD)
    have "fst ` set computed = fst ` set lookup"
      using build_tasks_gids[OF b] by (simp add: cm image_image) (metis set_map)
    then have "\<forall>r\<in>set (?arr computed). fst r \<in> fst ` set lookup" using st by auto
    then obtain by_sample where g: "group_results lookup (?arr computed) [] = Inr by_sample"
      using group_results_total by blast
    have num: "\<forall>r\<in>set computed. numeric_score (snd r)"
    proof
      fix r assume "r \<in> set computed"
      then obtain t where t: "t \<in> set tasks" and r: "r = (fst t, payload_detail T sc (snd t))"
        by (auto simp: cm)
      obtain resp src gt ei where p: "snd t = (resp, src, gt, ei)" by (cases "snd t")
      then have "contained T (sc src resp gt ei)" using pay t by force
      then show "numeric_score (snd r)" using contained_result[of T "sc src resp gt ei" 0]
        by (simp add: r p payload_detail_def)
    qed
    have "\<forall>k dl. map_of by_sample k = Some dl \<longrightarrow> (\<forall>d\<in>set dl. numeric_score d)"
    proof (intro allI impI ballI)
      fix k dl d assume m: "map_of by_sample k = Some dl" and d: "d \<in> set dl"
      have "dl = arrived_for lookup k (?arr computed)"
        using group_results_closed[OF g, of k] m by (simp split: if_splits)
      then have "d \<in> snd ` set (?arr computed)" using d by (auto simp: arrived_for_def)
      then show "numeric_score d" using num st by auto
    qed
    then obtain r where "update_samples (correct_reward_threshold cfg) bn by_sample batch rr1 = Inr r"
      using update_samples_total by blast
    then show ?thesis using b False c g
      by (cases r) (simp add: score_batch_def bind_err_def)
  qed
qed

lemma compute_finishes:
  "compute_single_reward T gid (Finishes dur f) =
     (if in_time T dur then handle_final T gid f else Result (gid, timeout_detail T))"
  by (simp add: compute_single_reward_def in_time_def split: option.splits)






lemma numeric_timeout_detail: "numeric_score (timeout_detail T)"
  by (simp add: numeric_score_def timeout_detail_def)

lemma numeric_error_detail: "numeric_score (error_detail msg)"
  by (simp add: numeric_score_def error_detail_def)



lemma contained_iff:
  "contained T run = (\<exists>det. compute_single_reward T 0 run = Result (0, det) \<and> numeric_score det)"
proof
  assume "contained T run"
  then show "\<exists>det. compute_single_reward T 0 run = Result (0, det) \<and> numeric_score det"
    using contained_result[of T run 0] by blast
next
  assume "\<exists>det. compute_single_reward T 0 run = Result (0, det) \<and> numeric_score det"
  then show "contained T run" by (auto simp: contained_def task_detail_def)
qed

lemma contained_raises:
  "c \<noteq> Base_exception \<Longrightarrow> contained T (Finishes dur (Raises c msg))"
  by (cases c)
     (auto simp: contained_iff compute_finishes numeric_timeout_detail numeric_error_detail)

text \<open>
  Scoring leaves the inputs of a sample as they were, so a rank directory of contained
  batches stays one while its files are rewritten, and the pass over it reaches the end.
\<close>

lemma scored_sample_inputs:
  assumes "scored_sample thr dl s = Inr s'"
  shows "source s' = source s \<and> responses s' = responses s
       \<and> sample_ground_truth s' = sample_ground_truth s \<and> sample_extra_info s' = sample_extra_info s"
  using scored_sample_fields[OF assms] by auto

lemma update_samples_contained:
  assumes "update_samples thr bn by_sample items rr = Inr (items', rr')"
    and "contained_batch T sc items"
  shows "contained_batch T sc items'"
  using assms
proof (induction items arbitrary: rr items' rr')
  case Nil
  then show ?case by simp
next
  case (Cons x items)
  obtain k0 s0 where x: "x = (k0, s0)" by (cases x)
  have rest: "contained_batch T sc items" using Cons.prems(2) by (simp add: contained_batch_def)
  have head: "\<forall>raw\<in>set (responses s0). contained T
      (sc (source s0) (strip_reasoning raw) (sample_ground_truth s0) (sample_extra_info s0))"
    using Cons.prems(2) by (simp add: contained_batch_def x)
  show ?case
  proof (cases "map_of by_sample k0")
    case None
    from Cons.prems(1) obtain it2 where
      u: "update_samples thr bn by_sample items rr = Inr (it2, rr')"
      and i: "items' = (k0, s0) # it2"
      by (auto simp: x None bind_err_def split: sum.splits prod.splits)
    from Cons.IH[OF u rest] head show ?thesis by (simp add: i contained_batch_def)
  next
    case (Some dl)
    from Cons.prems(1) obtain s0' it2 where
      sc: "scored_sample thr dl s0 = Inr s0'"
      and u: "update_samples thr bn by_sample items (AList.update (rank_key bn k0) s0' rr) = Inr (it2, rr')"
      and i: "items' = (k0, s0') # it2"
      by (auto simp: x Some bind_err_def split: sum.splits prod.splits)
    from Cons.IH[OF u rest] head scored_sample_inputs[OF sc] show ?thesis
      by (simp add: i contained_batch_def)
  qed
qed

lemma score_batch_contained:
  assumes "score_batch cfg T sc pool bn batch rr = Inr (batch', rr', n)"
    and "contained_batch T sc batch"
  shows "contained_batch T sc batch'"
proof -
  obtain tasks lookup rr1 where b: "build_tasks (recalculate_rewards cfg) bn batch 0 rr = (tasks, lookup, rr1)"
    by (cases "build_tasks (recalculate_rewards cfg) bn batch 0 rr") auto
  show ?thesis
  proof (cases "tasks = []")
    case True
    then show ?thesis using assms b by (simp add: score_batch_def)
  next
    case False
    then obtain by_sample where
      "update_samples (correct_reward_threshold cfg) bn by_sample batch rr1 = Inr (batch', rr')"
      using assms(1) b by (auto simp: score_batch_def bind_err_def split: sum.splits prod.splits)
    then show ?thesis using assms(2) by (rule update_samples_contained)
  qed
qed

lemma set_update_alist: "set (AList.update k v al) \<subseteq> insert (k, v) (set al)"
  by (induction al) auto

lemma score_files_total:
  assumes "all_contained T sc dir"
    and "\<forall>deliver xs. pool = Some deliver \<longrightarrow> mset (deliver xs) = mset xs"
    and "\<forall>name\<in>set names. \<exists>batch. map_of dir name = Some (Loaded batch)"
  shows "fst (score_files cfg T sc pool names dir rr tot) = None"
  using assms
proof (induction names arbitrary: dir rr tot)
  case Nil
  then show ?case by simp
next
  case (Cons name names)
  obtain batch where l: "map_of dir name = Some (Loaded batch)" using Cons.prems(3) by auto
  then have "(name, Loaded batch) \<in> set dir" by (rule map_of_SomeD)
  then have cb: "contained_batch T sc batch" using Cons.prems(1) by (auto simp: all_contained_def)
  then have "\<exists>r. score_batch cfg T sc pool name batch rr = Inr r"
    using Cons.prems(2) by (intro score_batch_total) (simp_all add: contained_batch_def)
  then obtain batch' rr' n where r: "score_batch cfg T sc pool name batch rr = Inr (batch', rr', n)"
    by (metis prod_cases3)
  let ?dir = "AList.update name (Loaded batch') dir"
  have cb': "contained_batch T sc batch'" using r cb by (rule score_batch_contained)
  have a: "all_contained T sc ?dir"
    using Cons.prems(1) cb' set_update_alist[of name "Loaded batch'" dir]
    by (auto simp: all_contained_def)
  have c: "\<forall>name'\<in>set names. \<exists>batch. map_of ?dir name' = Some (Loaded batch)"
    using Cons.prems(3) by (auto simp: map_of_update_alist)
  from Cons.IH[OF a Cons.prems(2) c] show ?case by (simp add: l r)
qed

lemma set_insert_name: "set (insert_name x ys) = insert x (set ys)"
  by (induction ys) auto

lemma set_sorted_names: "set (sorted_names xs) = set xs"
  by (induction xs) (simp_all add: sorted_names_def set_insert_name)

lemma score_rank_dir_completes:
  assumes "\<not> debug cfg"
    and "\<forall>(fname, c)\<in>set (glob_batch_files dir). c \<noteq> Unreadable"
    and "all_contained T sc dir"
    and "\<forall>deliver xs. pool = Some deliver \<longrightarrow> mset (deliver xs) = mset xs"
  shows "stopped (score_rank_dir cfg T sc pool elapsed dir) = None"
    and "glob_batch_files dir \<noteq> [] \<Longrightarrow> final_summary (score_rank_dir cfg T sc pool elapsed dir) \<noteq> None"
proof -
  let ?names = "sorted_names (map fst (glob_batch_files dir))"
  have "\<forall>name\<in>set ?names. \<exists>batch. map_of dir name = Some (Loaded batch)"
  proof
    fix name assume "name \<in> set ?names"
    then have "name \<in> fst ` set (glob_batch_files dir)" by (simp add: set_sorted_names)
    then have g: "glob_match name" and "name \<in> fst ` set dir"
      by (auto simp: glob_batch_files_def)
    then obtain c where m: "map_of dir name = Some c"
      by (metis domD dom_map_of_conv_image_fst)
    then have "(name, c) \<in> set dir" by (rule map_of_SomeD)
    then have "(name, c) \<in> set (glob_batch_files dir)" using g by (simp add: glob_batch_files_def)
    then have "c \<noteq> Unreadable" using assms(2) by auto
    then show "\<exists>batch. map_of dir name = Some (Loaded batch)" using m by (cases c) auto
  qed
  then have f: "fst (score_files cfg T sc pool ?names dir [] 0) = None"
    by (rule score_files_total[OF assms(3,4)])
  then show "stopped (score_rank_dir cfg T sc pool elapsed dir) = None"
    using assms(1) by (auto simp: score_rank_dir_def Let_def split: prod.splits option.splits)
  assume "glob_batch_files dir \<noteq> []"
  then have "set ?names \<noteq> {}" by (simp add: set_sorted_names)
  then have "?names \<noteq> []" by auto
  then show "final_summary (score_rank_dir cfg T sc pool elapsed dir) \<noteq> None"
    using assms(1) f by (auto simp: score_rank_dir_def Let_def split: prod.splits option.splits)
qed

text \<open>
  Claim C6, the code at the failing input. With \<^verbatim>\<open>--reward_workers 1\<close> (or a machine
  that leaves one worker) no pool is created, the initializer never runs, and the tasks
  run where \<^verbatim>\<open>_TASK_TIMEOUT\<close> is \<open>None\<close>: with \<^verbatim>\<open>--task_timeout 35\<close> a collaborator
  that takes 100 seconds is waited for and its score returned, and one that never
  finishes is waited for without end. In a pool worker the same two tasks give the
  zero score tagged \<^verbatim>\<open>task_timeout>35s\<close>.
\<close>

theorem sequential_path_arms_no_alarm:
  "worker_timeout (pool_workers 8 1) 35 = None
   \<and> compute_single_reward (worker_timeout (pool_workers 8 1) 35) 0
        (Finishes 100 (Returns (Bare 1))) = Result (0, [(''score'', Num 1)])
   \<and> compute_single_reward (worker_timeout (pool_workers 8 1) 35) 0 Hangs = No_return
   \<and> compute_single_reward (worker_timeout (pool_workers 8 16) 35) 0
        (Finishes 100 (Returns (Bare 1)))
       = Result (0, [(''score'', Num 0), (''error'', Str ''task_timeout>35s'')])
   \<and> compute_single_reward (worker_timeout (pool_workers 8 16) 35) 0 Hangs
       = Result (0, [(''score'', Num 0), (''error'', Str ''task_timeout>35s'')])"
  by code_simp

text \<open>
  A further property. Where the alarm is armed (a pool worker, a timeout of at least one
  second), a task whose collaborator has not finished when the alarm goes off returns
  the zero score tagged with the timeout. It returns: nothing is raised into the worker.
\<close>

theorem armed_timeout_gives_zero:
  assumes "0 < t" and "\<not> dur < t"
  shows "compute_single_reward (Some t) gid (Finishes dur f)
           = Result (gid, [(''score'', Num 0), (''error'', Str (''task_timeout>'' @ str_nat t @ ''s''))])
       \<and> compute_single_reward (Some t) gid Hangs
           = Result (gid, [(''score'', Num 0), (''error'', Str (''task_timeout>'' @ str_nat t @ ''s''))])"
  using assms
  by (simp add: compute_single_reward_def armed_alarm_def timeout_detail_def)

theorem armed_timeout_gives_zero_witness:
  "compute_single_reward (Some 35) 4 (Finishes 35 (Raises Base_exception ''exit''))
     = Result (4, [(''score'', Num 0), (''error'', Str ''task_timeout>35s'')])
   \<and> compute_single_reward (Some 35) 4 Hangs
     = Result (4, [(''score'', Num 0), (''error'', Str ''task_timeout>35s'')])"
proof -
  have h: "(0::nat) < 35" "\<not> (35::nat) < 35" by simp_all
  have s: "str_nat 35 = ''35''" by code_simp
  show ?thesis using armed_timeout_gives_zero[OF h, of 4 "Raises Base_exception ''exit''"]
    by (simp add: s)
qed

text \<open>
  Claim C7, as amended. When the collaborator raises before any alarm goes off: an
  exception of class \<^verbatim>\<open>Exception\<close> other than \<^verbatim>\<open>TimeoutError\<close> gives the score \<open>0.0\<close> with
  its message in the error field; a \<^verbatim>\<open>TimeoutError\<close> gives the score \<open>0.0\<close> with the
  timeout marker in place of its message. Either way the task returns a value, so the
  call is contained, and a batch all of whose calls are contained is scored to the end
  whatever the order the results arrive in; so is a whole rank directory whose batch
  files all load. (An exception outside \<^verbatim>\<open>Exception\<close> is not caught.)
\<close>

theorem scorer_exception_gives_zero:
  assumes "in_time T dur"
  shows "compute_single_reward T gid (Finishes dur (Raises Other_exception msg))
           = Result (gid, [(''score'', Num 0), (''error'', Str msg)])
       \<and> compute_single_reward T gid (Finishes dur (Raises Timeout_error msg))
           = Result (gid, timeout_detail T)
       \<and> contained T (Finishes dur (Raises Other_exception msg))
       \<and> contained T (Finishes dur (Raises Timeout_error msg))
       \<and> ((\<forall>(k, s)\<in>set batch. \<forall>raw\<in>set (responses s).
              contained T (scorer (source s) (strip_reasoning raw) (sample_ground_truth s)
                             (sample_extra_info s)))
            \<and> (\<forall>deliver xs. reward_pool = Some deliver \<longrightarrow> mset (deliver xs) = mset xs)
            \<longrightarrow> (\<exists>r. score_batch cfg T scorer reward_pool batch_name batch rank_results = Inr r))
       \<and> (\<not> debug cfg \<and> (\<forall>(fname, c)\<in>set (glob_batch_files dir). c \<noteq> Unreadable)
            \<and> all_contained T scorer dir
            \<and> (\<forall>deliver xs. reward_pool = Some deliver \<longrightarrow> mset (deliver xs) = mset xs)
            \<longrightarrow> stopped (score_rank_dir cfg T scorer reward_pool elapsed dir) = None
              \<and> (glob_batch_files dir \<noteq> []
                   \<longrightarrow> final_summary (score_rank_dir cfg T scorer reward_pool elapsed dir) \<noteq> None))"
proof -
  have a: "compute_single_reward T gid (Finishes dur (Raises Other_exception msg))
           = Result (gid, [(''score'', Num 0), (''error'', Str msg)])"
    using assms by (simp add: compute_finishes error_detail_def)
  have b: "compute_single_reward T gid (Finishes dur (Raises Timeout_error msg))
           = Result (gid, timeout_detail T)"
    using assms by (simp add: compute_finishes)
  have c: "contained T (Finishes dur (Raises Other_exception msg))"
    "contained T (Finishes dur (Raises Timeout_error msg))"
    by (simp_all add: contained_raises)
  have d: "(\<forall>(k, s)\<in>set batch. \<forall>raw\<in>set (responses s).
              contained T (scorer (source s) (strip_reasoning raw) (sample_ground_truth s)
                             (sample_extra_info s)))
            \<and> (\<forall>deliver xs. reward_pool = Some deliver \<longrightarrow> mset (deliver xs) = mset xs)
            \<longrightarrow> (\<exists>r. score_batch cfg T scorer reward_pool batch_name batch rank_results = Inr r)"
    using score_batch_total[of batch T scorer reward_pool cfg batch_name rank_results] by blast
  have e: "\<not> debug cfg \<and> (\<forall>(fname, c)\<in>set (glob_batch_files dir). c \<noteq> Unreadable)
            \<and> all_contained T scorer dir
            \<and> (\<forall>deliver xs. reward_pool = Some deliver \<longrightarrow> mset (deliver xs) = mset xs)
            \<longrightarrow> stopped (score_rank_dir cfg T scorer reward_pool elapsed dir) = None
              \<and> (glob_batch_files dir \<noteq> []
                   \<longrightarrow> final_summary (score_rank_dir cfg T scorer reward_pool elapsed dir) \<noteq> None)"
    using score_rank_dir_completes[of cfg dir T scorer reward_pool elapsed] by blast
  from a b c d e show ?thesis by (intro conjI)
qed

theorem scorer_exception_gives_zero_witness:
  "compute_single_reward (Some 35) 3 (Finishes 1 (Raises Other_exception ''division by zero''))
     = Result (3, [(''score'', Num 0), (''error'', Str ''division by zero'')])
   \<and> (\<exists>r. score_batch example_config (Some 35) failing_scorer (Some rev) ''batch_00000.json''
             example_items [] = Inr r)
   \<and> stopped (score_rank_dir example_config (Some 35) failing_scorer (Some rev) 2 example_rank_dir)
       = None
   \<and> final_summary (score_rank_dir example_config (Some 35) failing_scorer (Some rev) 2
                      example_rank_dir) \<noteq> None"
proof -
  have h: "in_time (Some 35) 1" by (simp add: in_time_def armed_alarm_def)
  note t = scorer_exception_gives_zero[OF h, where msg = "''division by zero''"]
  note k = t[THEN conjunct2, THEN conjunct2, THEN conjunct1]
  have c: "\<forall>(k, s)\<in>set example_items. \<forall>raw\<in>set (responses s).
             contained (Some 35) (failing_scorer (source s) (strip_reasoning raw)
               (sample_ground_truth s) (sample_extra_info s))"
    using k by (simp add: failing_scorer_def)
  have p: "\<forall>deliver xs. Some rev = Some deliver \<longrightarrow>
             mset (deliver xs) = mset (xs :: (nat \<times> detail) list)"
    by simp
  have b: "\<exists>r. score_batch example_config (Some 35) failing_scorer (Some rev) ''batch_00000.json''
             example_items [] = Inr r"
    using t[where gid = 0 and batch = example_items and scorer = failing_scorer
          and reward_pool = "Some rev" and cfg = example_config
          and batch_name = "''batch_00000.json''" and rank_results = "[]",
        THEN conjunct2, THEN conjunct2, THEN conjunct2, THEN conjunct2, THEN conjunct1] c p
    by blast
  have d: "\<not> debug example_config" by (simp add: example_config_def)
  have g: "map fst (glob_batch_files example_rank_dir) = [''batch_00000.json'', ''batch_00001.json'']"
    by code_simp
  have l: "\<forall>(fname, c)\<in>set (glob_batch_files example_rank_dir). c \<noteq> Unreadable"
    by code_simp
  have n: "glob_batch_files example_rank_dir \<noteq> []" using g by auto
  have a: "all_contained (Some 35) failing_scorer example_rank_dir"
    using k by (simp add: all_contained_def contained_batch_def failing_scorer_def)
  note r = t[where gid = 0 and scorer = failing_scorer and reward_pool = "Some rev"
          and cfg = example_config and dir = example_rank_dir and elapsed = 2,
        THEN conjunct2, THEN conjunct2, THEN conjunct2, THEN conjunct2, THEN conjunct2,
        THEN mp, OF conjI[OF d conjI[OF l conjI[OF a p]]]]
  from r[THEN conjunct1] r[THEN conjunct2, THEN mp, OF n] b t[where gid = 3, THEN conjunct1]
  show ?thesis by simp
qed

theorem scorer_exception_gives_zero_counterexample:
  "compute_single_reward (Some 35) 3 (Finishes 1 (Raises Timeout_error ''connection timed out''))
     = Result (3, [(''score'', Num 0), (''error'', Str ''task_timeout>35s'')])
   \<and> Str ''task_timeout>35s'' \<noteq> Str ''connection timed out''"
  by code_simp











section \<open>Further properties\<close>

text \<open>
  Every name the runner writes an artifact under is matched by the resolver's pattern
  and gives back the batch index, for every integer index.
\<close>

theorem artifact_name_roundtrip:
  "glob_match (batch_file_name idx) \<and> parse_batch_num (batch_file_name idx) = Some idx"
  by (simp add: glob_match_batch_file_name parse_batch_file_name)

text \<open>
  With force-regenerate on, the resolver looks at nothing and returns the fresh state:
  index \<open>0\<close>, no results, no errors.
\<close>

theorem force_regenerate_starts_clean:
  "fst (load_checkpoint True dir)
     = \<lparr>current_batch_idx = 0, global_results = [], global_errors = []\<rparr>"
  by (simp add: load_checkpoint_def)

text \<open>
  With recompute off, a sample that already has scores is left as it is in the batch
  that is written back.
\<close>

theorem scored_sample_left_untouched:
  assumes "score_batch cfg T scorer reward_pool batch_name batch rank_results = Inr (batch', rr', n)"
    and "distinct (map fst batch)"
    and "\<forall>deliver xs. reward_pool = Some deliver \<longrightarrow> mset (deliver xs) = mset xs"
    and "(k, s) \<in> set batch"
    and "\<not> recalculate_rewards cfg" and "has_scores s"
  shows "map_of batch' k = Some s"
  using score_batch_sample[OF assms(1-4)] assms(5,6) by simp

theorem scored_sample_left_untouched_witness:
  "\<exists>b r n. score_batch example_config None example_scorer None ''batch_00000.json''
       [(''0'', (the (map_of example_items ''0''))\<lparr>scores := Some [Num 1]\<rparr>)] [] = Inr (b, r, n)
     \<and> map_of b ''0'' = Some ((the (map_of example_items ''0''))\<lparr>scores := Some [Num 1]\<rparr>)"
proof -
  let ?s = "(the (map_of example_items ''0''))\<lparr>scores := Some [Num 1]\<rparr>"
  let ?r = "score_batch example_config None example_scorer None ''batch_00000.json'' [(''0'', ?s)] []"
  have "\<not> isl ?r" by code_simp
  then obtain b r n where R: "?r = Inr (b, r, n)"
    by (metis sum.collapse(2) prod_cases3)
  have P: "\<forall>deliver xs. (None :: ((nat \<times> detail) list \<Rightarrow> (nat \<times> detail) list) option) = Some deliver
             \<longrightarrow> mset (deliver xs) = mset xs"
    by simp
  have "map_of b ''0'' = Some ?s"
    by (rule scored_sample_left_untouched[OF R _ P, of "''0''"])
       (simp_all add: example_config_def has_scores_def)
  then show ?thesis using R by blast
qed

end
